theory Spec2Isabelle
  imports Complex_Main "HOL-Library.Log_Nat"
begin

section \<open>Entities\<close>

text \<open>
  The library management system keeps books and members in memory (two dictionaries of
  objects) and mirrors them in an SQLite store. Python objects are records, Python
  \<open>int\<close> is \<open>int\<close>, and a Python \<open>float\<close> (a fine, an amount) is a binary64 number
  whose arithmetic rounds. A method that mutates its object returns the new object beside
  its result. The creation timestamps \<open>created_at\<close> and \<open>membership_date\<close> are written
  once and read by no operation; they are left out.
\<close>

subsection \<open>Python floats\<close>

text \<open>
  A \<open>float\<close> is a finite binary64 number, given by its value, an infinity, or a NaN.
  The sign of a zero is not kept: \<open>-0.0 == 0.0\<close>, and no operation of the library tells
  the two apart.
\<close>

datatype pyfloat = Fin rat | PInf | NInf | NaN

definition pow2 :: "int \<Rightarrow> rat" where
  "pow2 k = 2 powi k"

text \<open>
  The values of binary64: an integer of at most 53 bits times a power of two, the
  exponent from -1074 (the subnormal numbers) to 971.
\<close>

definition is_double :: "rat \<Rightarrow> bool" where
  "is_double x \<longleftrightarrow>
     (\<exists>m e. x = of_int m * pow2 e \<and> \<bar>m\<bar> < 2 ^ 53 \<and> - 1074 \<le> e \<and> e \<le> 971)"

text \<open>
  \<open>floor_log2 a\<close> is the \<open>k\<close> with \<open>2^k \<le> a < 2^(k+1)\<close>, for \<open>a > 0\<close>, found from
  the bit lengths of numerator and denominator.
\<close>

definition floor_log2 :: "rat \<Rightarrow> int" where
  "floor_log2 a =
     (let d = bitlen (fst (quotient_of a)) - bitlen (snd (quotient_of a))
      in if pow2 d \<le> a then d else d - 1)"

definition round_half_even :: "rat \<Rightarrow> int" where
  "round_half_even r =
     (let f = \<lfloor>r\<rfloor>; d = r - of_int f
      in if d < 1 / 2 then f else if 1 / 2 < d then f + 1
         else if even f then f else f + 1)"

text \<open>
  The result of an arithmetic operation is its exact result rounded to the nearest
  binary64 number, a tie going to the even significand: the exact result is scaled to a
  significand of 53 bits (less for a subnormal number), the significand is rounded to an
  integer, and a result of \<open>2^1024\<close> or more is an infinity.
\<close>

definition round_double :: "rat \<Rightarrow> pyfloat" where
  "round_double x =
     (if x = 0 then Fin 0
      else let e = max (floor_log2 \<bar>x\<bar> - 52) (- 1074);
               v = of_int (round_half_even (\<bar>x\<bar> / pow2 e)) * pow2 e
           in if pow2 1024 \<le> v then (if 0 < x then PInf else NInf)
              else Fin (sgn x * v))"

text \<open>The comparisons \<open>a <= b\<close> and \<open>a < b\<close>; both are false when a NaN is compared.\<close>

fun fle :: "pyfloat \<Rightarrow> pyfloat \<Rightarrow> bool" where
  "fle NaN b = False"
| "fle a NaN = False"
| "fle (Fin x) (Fin y) = (x \<le> y)"
| "fle NInf b = True"
| "fle a PInf = True"
| "fle PInf b = False"
| "fle (Fin x) NInf = False"

fun flt :: "pyfloat \<Rightarrow> pyfloat \<Rightarrow> bool" where
  "flt NaN b = False"
| "flt a NaN = False"
| "flt (Fin x) (Fin y) = (x < y)"
| "flt NInf NInf = False"
| "flt NInf b = True"
| "flt PInf b = False"
| "flt (Fin x) PInf = True"
| "flt (Fin x) NInf = False"

text \<open>The operations \<open>-a\<close>, \<open>a + b\<close>, \<open>a - b\<close> and \<open>a * b\<close>.\<close>

fun fneg :: "pyfloat \<Rightarrow> pyfloat" where
  "fneg (Fin x) = Fin (- x)"
| "fneg PInf = NInf"
| "fneg NInf = PInf"
| "fneg NaN = NaN"

fun fadd :: "pyfloat \<Rightarrow> pyfloat \<Rightarrow> pyfloat" where
  "fadd NaN b = NaN"
| "fadd a NaN = NaN"
| "fadd (Fin x) (Fin y) = round_double (x + y)"
| "fadd PInf NInf = NaN"
| "fadd NInf PInf = NaN"
| "fadd PInf b = PInf"
| "fadd NInf b = NInf"
| "fadd (Fin x) b = b"

definition fsub :: "pyfloat \<Rightarrow> pyfloat \<Rightarrow> pyfloat" where
  "fsub a b = fadd a (fneg b)"

fun fmul :: "pyfloat \<Rightarrow> pyfloat \<Rightarrow> pyfloat" where
  "fmul NaN b = NaN"
| "fmul a NaN = NaN"
| "fmul (Fin x) (Fin y) = round_double (x * y)"
| "fmul (Fin x) PInf = (if x = 0 then NaN else if 0 < x then PInf else NInf)"
| "fmul (Fin x) NInf = (if x = 0 then NaN else if 0 < x then NInf else PInf)"
| "fmul PInf (Fin y) = (if y = 0 then NaN else if 0 < y then PInf else NInf)"
| "fmul NInf (Fin y) = (if y = 0 then NaN else if 0 < y then NInf else PInf)"
| "fmul PInf PInf = PInf"
| "fmul PInf NInf = NInf"
| "fmul NInf PInf = NInf"
| "fmul NInf NInf = PInf"

text \<open>
  An \<open>int\<close> that meets a \<open>float\<close> in an operation is converted first, rounded in the
  same way. Python raises \<open>OverflowError\<close> where this gives an infinity, from \<open>2^1024\<close>
  on; the integers converted here are numbers of days between two \<open>datetime\<close> values,
  which are below \<open>2^22\<close>.
\<close>

definition float_of_int :: "int \<Rightarrow> pyfloat" where
  "float_of_int n = round_double (of_int n)"

subsection \<open>book.py\<close>

record book =
  isbn :: string
  title :: string
  author :: string
  publisher :: string
  publication_year :: int
  total_copies :: int
  available_copies :: int

text \<open>\<open>Book.__init__\<close>: every copy is available at first.\<close>

definition Book :: "string \<Rightarrow> string \<Rightarrow> string \<Rightarrow> string \<Rightarrow> int \<Rightarrow> int \<Rightarrow> book" where
  "Book i t a p y n =
     \<lparr>isbn = i, title = t, author = a, publisher = p, publication_year = y,
      total_copies = n, available_copies = n\<rparr>"

definition borrow_copy :: "book \<Rightarrow> bool \<times> book" where
  "borrow_copy b =
     (if available_copies b > 0
      then (True, b\<lparr>available_copies := available_copies b - 1\<rparr>)
      else (False, b))"

definition return_copy :: "book \<Rightarrow> bool \<times> book" where
  "return_copy b =
     (if available_copies b < total_copies b
      then (True, b\<lparr>available_copies := available_copies b + 1\<rparr>)
      else (False, b))"

text \<open>A sequence of calls on one book, results dropped.\<close>

datatype book_call = BorrowCopy | ReturnCopy

fun book_step :: "book \<Rightarrow> book_call \<Rightarrow> book" where
  "book_step b BorrowCopy = snd (borrow_copy b)"
| "book_step b ReturnCopy = snd (return_copy b)"

definition book_calls :: "book \<Rightarrow> book_call list \<Rightarrow> book" where
  "book_calls b cs = foldl book_step b cs"

subsection \<open>member.py\<close>

record member =
  member_id :: string
  name :: string
  email :: string
  phone :: string
  address :: string
  is_active :: bool
  borrowed_books :: "string list"
  total_fines :: pyfloat

definition Member :: "string \<Rightarrow> string \<Rightarrow> string \<Rightarrow> string \<Rightarrow> string \<Rightarrow> member" where
  "Member m n e p a =
     \<lparr>member_id = m, name = n, email = e, phone = p, address = a,
      is_active = True, borrowed_books = [], total_fines = Fin 0\<rparr>"

definition add_borrowed_book :: "member \<Rightarrow> string \<Rightarrow> member" where
  "add_borrowed_book m book_id =
     (if book_id \<notin> set (borrowed_books m)
      then m\<lparr>borrowed_books := borrowed_books m @ [book_id]\<rparr>
      else m)"

text \<open>\<open>list.remove\<close> deletes the first occurrence, as \<open>remove1\<close> does.\<close>

definition remove_borrowed_book :: "member \<Rightarrow> string \<Rightarrow> bool \<times> member" where
  "remove_borrowed_book m book_id =
     (if book_id \<in> set (borrowed_books m)
      then (True, m\<lparr>borrowed_books := remove1 book_id (borrowed_books m)\<rparr>)
      else (False, m))"

definition add_fine :: "member \<Rightarrow> pyfloat \<Rightarrow> member" where
  "add_fine m amount = m\<lparr>total_fines := fadd (total_fines m) amount\<rparr>"

definition pay_fine :: "member \<Rightarrow> pyfloat \<Rightarrow> bool \<times> member" where
  "pay_fine m amount =
     (if fle amount (total_fines m)
      then (True, m\<lparr>total_fines := fsub (total_fines m) amount\<rparr>)
      else (False, m))"

section \<open>The record store (database.py)\<close>

text \<open>
  The SQLite file is a record of its three tables, each a list of rows in rowid order.
  A reading of \<open>datetime.now()\<close> is an integer, in microseconds. A write that catches
  \<open>sqlite3.Error\<close> takes a flag \<open>ok\<close>: whether SQLite completed the statement and
  the commit (\<open>False\<close> stands for a locked or unwritable file); the store is unchanged
  when it did not. The value of \<open>CURRENT_TIMESTAMP\<close> at a write is the parameter
  \<open>ts\<close>, an integer in seconds. Foreign keys are declared but SQLite does not enforce
  them unless asked to, and the code does not ask.
\<close>

record book_row =
  row_isbn :: string
  row_title :: string
  row_author :: string
  row_publisher :: string
  row_publication_year :: int
  row_total_copies :: int
  row_available_copies :: int

record member_row =
  row_member_id :: string
  row_name :: string
  row_email :: string
  row_phone :: string
  row_address :: string
  row_is_active :: int
  row_total_fines :: pyfloat

record borrowing_record =
  record_id :: int
  rec_member_id :: string
  rec_isbn :: string
  borrow_date :: int
  due_date :: int
  return_date :: "int option"
  fine_paid :: pyfloat

record database =
  books_table :: "book_row list"
  members_table :: "member_row list"
  borrowing_records :: "borrowing_record list"

text \<open>\<open>init_db\<close> on a file that does not exist yet: three empty tables.\<close>

definition init_db :: database where
  "init_db = \<lparr>books_table = [], members_table = [], borrowing_records = []\<rparr>"

text \<open>
  \<open>Database.add_book\<close> and \<open>Database.add_member\<close>: the primary key rejects a
  second row with the same key (\<open>sqlite3.IntegrityError\<close>, answered with \<open>False\<close>).
\<close>

definition db_add_book ::
  "database \<Rightarrow> string \<Rightarrow> string \<Rightarrow> string \<Rightarrow> string \<Rightarrow> int \<Rightarrow> int \<Rightarrow> bool \<times> database" where
  "db_add_book db i t a p y n =
     (if i \<in> set (map row_isbn (books_table db)) then (False, db)
      else (True, db\<lparr>books_table := books_table db @
              [\<lparr>row_isbn = i, row_title = t, row_author = a, row_publisher = p,
                row_publication_year = y, row_total_copies = n,
                row_available_copies = n\<rparr>]\<rparr>))"

definition db_add_member ::
  "database \<Rightarrow> string \<Rightarrow> string \<Rightarrow> string \<Rightarrow> string \<Rightarrow> string \<Rightarrow> bool \<times> database" where
  "db_add_member db m n e p a =
     (if m \<in> set (map row_member_id (members_table db)) then (False, db)
      else (True, db\<lparr>members_table := members_table db @
              [\<lparr>row_member_id = m, row_name = n, row_email = e, row_phone = p,
                row_address = a, row_is_active = 1, row_total_fines = Fin 0\<rparr>]\<rparr>))"

text \<open>
  \<open>record_borrowing\<close> inserts one row; \<open>record_id\<close> is the next rowid,
  \<open>borrow_date\<close> defaults to \<open>CURRENT_TIMESTAMP\<close>, \<open>return_date\<close> to null and
  \<open>fine_paid\<close> to 0.0.
\<close>

definition record_borrowing ::
  "database \<Rightarrow> string \<Rightarrow> string \<Rightarrow> int \<Rightarrow> int \<Rightarrow> bool \<Rightarrow> bool \<times> database" where
  "record_borrowing db m i due ts ok =
     (if ok
      then (True, db\<lparr>borrowing_records := borrowing_records db @
              [\<lparr>record_id = int (length (borrowing_records db)) + 1,
                rec_member_id = m, rec_isbn = i, borrow_date = ts, due_date = due,
                return_date = None, fine_paid = Fin 0\<rparr>]\<rparr>)
      else (False, db))"

text \<open>
  The \<open>WHERE\<close> clause shared by \<open>record_return\<close> and the fine query:
  \<open>member_id = ? AND isbn = ? AND return_date IS NULL\<close>.
\<close>

definition is_open_for :: "string \<Rightarrow> string \<Rightarrow> borrowing_record \<Rightarrow> bool" where
  "is_open_for m i r \<longleftrightarrow> rec_member_id r = m \<and> rec_isbn r = i \<and> return_date r = None"

text \<open>\<open>record_return\<close>: one \<open>UPDATE\<close> over every row that the clause selects.\<close>

definition record_return ::
  "database \<Rightarrow> string \<Rightarrow> string \<Rightarrow> pyfloat \<Rightarrow> int \<Rightarrow> bool \<Rightarrow> bool \<times> database" where
  "record_return db m i fine ts ok =
     (if ok
      then (True, db\<lparr>borrowing_records :=
              map (\<lambda>r. if is_open_for m i r
                        then r\<lparr>return_date := Some ts, fine_paid := fine\<rparr> else r)
                  (borrowing_records db)\<rparr>)
      else (False, db))"

text \<open>
  The query of \<open>_calculate_fine\<close>: the selected rows \<open>ORDER BY borrow_date DESC LIMIT 1\<close>.
  SQL leaves the order among rows with equal \<open>borrow_date\<close> open; the model takes the
  first of them in rowid order.
\<close>

definition open_records :: "database \<Rightarrow> string \<Rightarrow> string \<Rightarrow> borrowing_record list" where
  "open_records db m i = filter (is_open_for m i) (borrowing_records db)"

fun most_recent :: "borrowing_record list \<Rightarrow> borrowing_record option" where
  "most_recent [] = None"
| "most_recent (r # rs) =
     (case most_recent rs of
        None \<Rightarrow> Some r
      | Some r' \<Rightarrow> if borrow_date r < borrow_date r' then Some r' else Some r)"

definition fetch_open_record :: "database \<Rightarrow> string \<Rightarrow> string \<Rightarrow> borrowing_record option" where
  "fetch_open_record db m i = most_recent (open_records db m i)"

section \<open>The library (library.py)\<close>

definition BORROWING_PERIOD_DAYS :: int where
  "BORROWING_PERIOD_DAYS = 14"

definition DAILY_FINE :: pyfloat where
  "DAILY_FINE = Fin 1"

text \<open>
  \<open>timedelta(days=n)\<close> in microseconds, and the \<open>days\<close> field of a \<open>timedelta\<close>:
  Python normalises a difference to days, seconds in \<open>[0, 86400)\<close> and microseconds in
  \<open>[0, 10^6)\<close>, so \<open>days\<close> is the floor of the difference over one day.
\<close>

definition timedelta_days :: "int \<Rightarrow> int" where
  "timedelta_days n = n * 86400000000"

definition days :: "int \<Rightarrow> int" where
  "days delta = delta div 86400000000"

text \<open>
  What an operation answers: the flag and the message. The two messages that format a
  date or an amount keep their arguments instead of the formatted text:
  \<open>Borrowed t d\<close> is \<open>f"Book '{t}' borrowed successfully. Due date: {d.date()}"\<close>,
  \<open>Returned t None\<close> is \<open>f"Book '{t}' returned successfully"\<close> and
  \<open>Returned t (Some f)\<close> is that text followed by \<open>f". Fine applied: ${f:.2f}"\<close>.
\<close>

datatype message = Msg string | Borrowed string int | Returned string "pyfloat option"

record library =
  database :: database
  books :: "string \<rightharpoonup> book"
  members :: "string \<rightharpoonup> member"

text \<open>
  \<open>_load_from_db\<close>: the two loops over \<open>fetchall()\<close>. A loaded member gets the fields
  \<open>is_active\<close> and \<open>total_fines\<close> of its row; \<open>borrowed_books\<close> stays as the
  constructor made it.
\<close>

definition load_book :: "(string \<rightharpoonup> book) \<Rightarrow> book_row \<Rightarrow> (string \<rightharpoonup> book)" where
  "load_book bs row =
     bs(row_isbn row \<mapsto>
        (Book (row_isbn row) (row_title row) (row_author row) (row_publisher row)
              (row_publication_year row) (row_total_copies row))
          \<lparr>available_copies := row_available_copies row\<rparr>)"

definition load_member :: "(string \<rightharpoonup> member) \<Rightarrow> member_row \<Rightarrow> (string \<rightharpoonup> member)" where
  "load_member ms row =
     ms(row_member_id row \<mapsto>
        (Member (row_member_id row) (row_name row) (row_email row) (row_phone row)
                (row_address row))
          \<lparr>is_active := (row_is_active row \<noteq> 0), total_fines := row_total_fines row\<rparr>)"

definition load_from_db :: "database \<Rightarrow> library" where
  "load_from_db db =
     \<lparr>database = db,
      books = foldl load_book Map.empty (books_table db),
      members = foldl load_member Map.empty (members_table db)\<rparr>"

text \<open>\<open>Library.__init__\<close> on an existing store, and on a new one.\<close>

definition Library :: "database \<Rightarrow> library" where
  "Library db = load_from_db db"

definition new_library :: library where
  "new_library = Library init_db"

definition add_book ::
  "library \<Rightarrow> string \<Rightarrow> string \<Rightarrow> string \<Rightarrow> string \<Rightarrow> int \<Rightarrow> int \<Rightarrow> bool \<times> library" where
  "add_book l i t a p y n =
     (if i \<in> dom (books l) then (False, l)
      else case db_add_book (database l) i t a p y n of
             (True, db') \<Rightarrow> (True, l\<lparr>database := db', books := (books l)(i \<mapsto> Book i t a p y n)\<rparr>)
           | (False, db') \<Rightarrow> (False, l\<lparr>database := db'\<rparr>))"

definition add_member ::
  "library \<Rightarrow> string \<Rightarrow> string \<Rightarrow> string \<Rightarrow> string \<Rightarrow> string \<Rightarrow> bool \<times> library" where
  "add_member l m n e p a =
     (if m \<in> dom (members l) then (False, l)
      else case db_add_member (database l) m n e p a of
             (True, db') \<Rightarrow> (True, l\<lparr>database := db', members := (members l)(m \<mapsto> Member m n e p a)\<rparr>)
           | (False, db') \<Rightarrow> (False, l\<lparr>database := db'\<rparr>))"

text \<open>
  \<open>_calculate_fine\<close> reads the clock twice: \<open>now1\<close> in the comparison with the due
  date, \<open>now2\<close> in the difference. The product \<open>days_overdue * self.DAILY_FINE\<close> is
  of an \<open>int\<close> and a \<open>float\<close>.
\<close>

definition calculate_fine :: "database \<Rightarrow> string \<Rightarrow> string \<Rightarrow> int \<Rightarrow> int \<Rightarrow> pyfloat" where
  "calculate_fine db m i now1 now2 =
     (case fetch_open_record db m i of
        None \<Rightarrow> Fin 0
      | Some r \<Rightarrow>
          if now1 > due_date r
          then fmul (float_of_int (days (now2 - due_date r))) DAILY_FINE
          else Fin 0)"

text \<open>
  \<open>borrow_book\<close>, with \<open>now\<close> the reading of \<open>datetime.now()\<close>. The book and the
  member are mutated before the write to the store, and again when the write fails.
\<close>

definition borrow_book ::
  "library \<Rightarrow> string \<Rightarrow> string \<Rightarrow> int \<Rightarrow> int \<Rightarrow> bool \<Rightarrow> (bool \<times> message) \<times> library" where
  "borrow_book l m i now ts ok =
     (case members l m of
        None \<Rightarrow> ((False, Msg ''Member not found''), l)
      | Some mem \<Rightarrow>
     (case books l i of
        None \<Rightarrow> ((False, Msg ''Book not found''), l)
      | Some bk \<Rightarrow>
          if \<not> is_active mem then ((False, Msg ''Member is not active''), l)
          else case borrow_copy bk of
            (False, bk1) \<Rightarrow> ((False, Msg ''Book not available''), l\<lparr>books := (books l)(i \<mapsto> bk1)\<rparr>)
          | (True, bk1) \<Rightarrow>
              let mem1 = add_borrowed_book mem i;
                  due = now + timedelta_days BORROWING_PERIOD_DAYS
              in case record_borrowing (database l) m i due ts ok of
                   (True, db') \<Rightarrow>
                     ((True, Borrowed (title bk1) due),
                      l\<lparr>database := db', books := (books l)(i \<mapsto> bk1),
                        members := (members l)(m \<mapsto> mem1)\<rparr>)
                 | (False, db') \<Rightarrow>
                     let bk2 = snd (return_copy bk1);
                         mem2 = snd (remove_borrowed_book mem1 i)
                     in ((False, Msg ''Failed to record borrowing''),
                         l\<lparr>database := db', books := (books l)(i \<mapsto> bk2),
                           members := (members l)(m \<mapsto> mem2)\<rparr>)))"

text \<open>
  \<open>return_book\<close>, with \<open>now1\<close> and \<open>now2\<close> the two clock readings of the fine
  calculation and \<open>ts\<close> the store's timestamp of the update. The test \<open>fine > 0\<close>
  compares the \<open>float\<close> with the \<open>int\<close> 0.
\<close>

definition return_book ::
  "library \<Rightarrow> string \<Rightarrow> string \<Rightarrow> int \<Rightarrow> int \<Rightarrow> int \<Rightarrow> bool \<Rightarrow> (bool \<times> message) \<times> library" where
  "return_book l m i now1 now2 ts ok =
     (case members l m of
        None \<Rightarrow> ((False, Msg ''Member not found''), l)
      | Some mem \<Rightarrow>
     (case books l i of
        None \<Rightarrow> ((False, Msg ''Book not found''), l)
      | Some bk \<Rightarrow>
          case remove_borrowed_book mem i of
            (False, mem1) \<Rightarrow>
              ((False, Msg ''This book was not borrowed by this member''),
               l\<lparr>members := (members l)(m \<mapsto> mem1)\<rparr>)
          | (True, mem1) \<Rightarrow>
              let bk1 = snd (return_copy bk);
                  fine = calculate_fine (database l) m i now1 now2;
                  mem2 = (if flt (Fin 0) fine then add_fine mem1 fine else mem1)
              in case record_return (database l) m i fine ts ok of
                   (True, db') \<Rightarrow>
                     ((True, Returned (title bk1) (if flt (Fin 0) fine then Some fine else None)),
                      l\<lparr>database := db', books := (books l)(i \<mapsto> bk1),
                        members := (members l)(m \<mapsto> mem2)\<rparr>)
                 | (False, db') \<Rightarrow>
                     ((False, Msg ''Failed to record return''),
                      l\<lparr>database := db', books := (books l)(i \<mapsto> bk1),
                        members := (members l)(m \<mapsto> mem2)\<rparr>)))"

subsection \<open>Sequences of operations\<close>

datatype call =
    AddBook string string string string int int
  | AddMember string string string string string
  | BorrowBook string string int int bool
  | ReturnBook string string int int int bool

fun step :: "library \<Rightarrow> call \<Rightarrow> library" where
  "step l (AddBook i t a p y n) = snd (add_book l i t a p y n)"
| "step l (AddMember m n e p a) = snd (add_member l m n e p a)"
| "step l (BorrowBook m i now ts ok) = snd (borrow_book l m i now ts ok)"
| "step l (ReturnBook m i now1 now2 ts ok) = snd (return_book l m i now1 now2 ts ok)"

definition run :: "library \<Rightarrow> call list \<Rightarrow> library" where
  "run l cs = foldl step l cs"

subsection \<open>Sequences that lend a book only to a member who does not hold it\<close>

text \<open>
  \<open>holds l m i\<close>: member \<open>m\<close> has \<open>i\<close> in \<open>borrowed_books\<close>. A call is
  \<open>allowed\<close> when it is not a \<open>borrow_book\<close> for a book the member holds and not a
  \<open>return_book\<close> whose write the store refuses.
\<close>

definition holds :: "library \<Rightarrow> string \<Rightarrow> string \<Rightarrow> bool" where
  "holds l m i = (case members l m of None \<Rightarrow> False | Some mem \<Rightarrow> i \<in> set (borrowed_books mem))"

fun allowed :: "library \<Rightarrow> call \<Rightarrow> bool" where
  "allowed l (BorrowBook m i now ts ok) = (\<not> holds l m i)"
| "allowed l (ReturnBook m i now1 now2 ts ok) = ok"
| "allowed l (AddBook i t a p y n) = True"
| "allowed l (AddMember m n e p a) = True"

fun guarded :: "library \<Rightarrow> call list \<Rightarrow> bool" where
  "guarded l [] = True"
| "guarded l (c # cs) = (allowed l c \<and> guarded (step l c) cs)"

text \<open>
  The invariant of such sequences: a pair has at most one open record in the store, and
  none unless the member holds the book.
\<close>

definition loans_consistent :: "library \<Rightarrow> bool" where
  "loans_consistent l \<longleftrightarrow>
     (\<forall>m i. length (open_records (database l) m i) \<le> (if holds l m i then 1 else 0))"

subsection \<open>The clock\<close>




subsection \<open>The fine, in the words of the specification\<close>

text \<open>
  The specification counts the "whole elapsed days" of the overdue time, "fractional days
  truncated toward zero". This definition follows those words, for comparison with
  \<open>days\<close>, which follows the code.
\<close>

definition truncated_days :: "int \<Rightarrow> int" where
  "truncated_days delta = sgn delta * (\<bar>delta\<bar> div 86400000000)"

subsection \<open>Example states\<close>

text \<open>
  A library on a new store with one member and one book of two copies; the same after
  the member has borrowed the book; after the member has borrowed it twice, one second
  apart; and a store left by an earlier session, holding an open loan.
\<close>

definition ex_setup :: "call list" where
  "ex_setup = [AddMember ''M1'' ''Ann'' ''ann@example.org'' ''555'' ''1 Main St'',
               AddBook ''1111111111'' ''X'' ''Y'' ''Z'' 2020 2]"

definition ex_library :: library where
  "ex_library = run new_library ex_setup"

definition ex_holding :: library where
  "ex_holding = run new_library (ex_setup @ [BorrowBook ''M1'' ''1111111111'' 0 0 True])"

definition ex_twice :: library where
  "ex_twice = run new_library
     (ex_setup @ [BorrowBook ''M1'' ''1111111111'' 0 0 True,
                  BorrowBook ''M1'' ''1111111111'' 1000000 1 True])"

definition ex_guarded :: "call list" where
  "ex_guarded = ex_setup @
     [BorrowBook ''M1'' ''1111111111'' 0 0 True,
      ReturnBook ''M1'' ''1111111111'' 5000000 5000000 5 True,
      BorrowBook ''M1'' ''1111111111'' 10000000 10 True]"

definition ex_store :: database where
  "ex_store = database ex_holding"

text \<open>
  A member who owes 1.0, and the \<open>float\<close> that Python prints as 0.1. A sequence whose
  return, twenty days after the loan, the store refuses.
\<close>

definition ex_debtor :: member where
  "ex_debtor = add_fine (Member ''M1'' ''Ann'' ''ann@example.org'' ''555'' ''1 Main St'') (Fin 1)"

definition ex_tenth :: pyfloat where
  "ex_tenth = Fin (3602879701896397 / 36028797018963968)"

definition ex_unreturned :: "call list" where
  "ex_unreturned = ex_setup @
     [BorrowBook ''M1'' ''1111111111'' 0 0 True,
      ReturnBook ''M1'' ''1111111111'' 1728000000000 1728000000000 1728000 False]"

section \<open>Rounding\<close>

lemma pow2_pos: "0 < pow2 k"
  by (simp add: pow2_def)

lemma pow2_add: "pow2 (j + k) = pow2 j * pow2 k"
  by (simp add: pow2_def power_int_add)

lemma pow2_less: "pow2 j < pow2 k \<longleftrightarrow> j < k"
  unfolding pow2_def
  by (metis power_int_strict_increasing power_int_increasing not_le one_less_numeral_iff semiring_norm(76) less_imp_le)

lemma pow2_nat: "0 \<le> k \<Longrightarrow> pow2 k = of_int (2 ^ nat k)"
  by (simp add: pow2_def power_int_def)

lemma round_half_even_int: "round_half_even (of_int n) = n"
  by (simp add: round_half_even_def)

lemma round_half_even_near: "\<bar>of_int (round_half_even r) - r\<bar> \<le> 1 / 2"
proof -
  have "of_int \<lfloor>r\<rfloor> \<le> r" "r < of_int \<lfloor>r\<rfloor> + 1" by linarith+
  then show ?thesis
    by (auto simp: round_half_even_def Let_def abs_le_iff)
qed

lemma floor_log2_bounds:
  assumes "0 < a"
  shows "pow2 (floor_log2 a) \<le> a \<and> a < pow2 (floor_log2 a + 1)"
proof -
  obtain p q where pq: "quotient_of a = (p, q)" by (cases "quotient_of a")
  then have q: "0 < q" by (rule quotient_of_denom_pos)
  from pq have a: "a = of_int p / of_int q" by (rule quotient_of_div)
  with assms q have p: "0 < p" by (simp add: zero_less_divide_iff)
  let ?d = "bitlen p - bitlen q"
  from bitlen_bounds [OF p] have p1: "2 ^ nat (bitlen p - 1) \<le> p" and p2: "p < 2 ^ nat (bitlen p)"
    by simp_all
  from bitlen_bounds [OF q] have q1: "2 ^ nat (bitlen q - 1) \<le> q" and q2: "q < 2 ^ nat (bitlen q)"
    by simp_all
  have bp: "1 \<le> bitlen p" using p bitlen_eq_zero_iff [of p] bitlen_nonneg [of p] by linarith
  have bq: "1 \<le> bitlen q" using q bitlen_eq_zero_iff [of q] bitlen_nonneg [of q] by linarith
  have P1: "pow2 (bitlen p - 1) \<le> of_int p"
    using p1 bp by (simp add: pow2_nat)
  have P2: "of_int p < pow2 (bitlen p)"
    using p2 bp by (simp add: pow2_nat)
  have Q1: "pow2 (bitlen q - 1) \<le> of_int q"
    using q1 bq by (simp add: pow2_nat)
  have Q2: "of_int q < pow2 (bitlen q)"
    using q2 bq by (simp add: pow2_nat)
  have qpos: "(0::rat) < of_int q" using q by simp
  have lo: "pow2 (?d - 1) \<le> a"
  proof -
    have "pow2 (?d - 1) * pow2 (bitlen q) = pow2 (bitlen p - 1)"
      by (simp add: pow2_add [symmetric])
    then have "pow2 (?d - 1) * of_int q \<le> pow2 (bitlen p - 1)"
      using Q2 pow2_pos [of "?d - 1"] by (metis less_imp_le mult_left_mono)
    with P1 have "pow2 (?d - 1) * of_int q \<le> of_int p" by linarith
    then show ?thesis using qpos by (simp add: a pos_le_divide_eq)
  qed
  have hi: "a < pow2 (?d + 1)"
  proof -
    have "pow2 (?d + 1) * pow2 (bitlen q - 1) = pow2 (bitlen p)"
      by (simp add: pow2_add [symmetric])
    then have "pow2 (bitlen p) \<le> pow2 (?d + 1) * of_int q"
      using Q1 pow2_pos [of "?d + 1"] by (metis less_imp_le mult_left_mono)
    with P2 have "of_int p < pow2 (?d + 1) * of_int q" by linarith
    then show ?thesis using qpos by (simp add: a pos_divide_less_eq)
  qed
  show ?thesis
  proof (cases "pow2 ?d \<le> a")
    case True
    then have "floor_log2 a = ?d" by (simp add: floor_log2_def pq)
    with True hi show ?thesis by simp
  next
    case False
    then have "floor_log2 a = ?d - 1" by (simp add: floor_log2_def pq)
    with False lo show ?thesis by simp
  qed
qed

lemma round_double_exact:
  assumes "is_double x"
  shows "round_double x = Fin x"
proof (cases "x = 0")
  case True
  then show ?thesis by (simp add: round_double_def)
next
  case False
  from assms obtain m e where x: "x = of_int m * pow2 e" and m: "\<bar>m\<bar> < 2 ^ 53"
    and e1: "- 1074 \<le> e" and e2: "e \<le> 971"
    unfolding is_double_def by blast
  define a where "a = \<bar>x\<bar>"
  define E where "E = max (floor_log2 a - 52) (- 1074)"
  have ax: "a = of_int \<bar>m\<bar> * pow2 e"
    using pow2_pos [of e] by (simp add: a_def x abs_mult)
  have apos: "0 < a" using False by (simp add: a_def)
  have mr: "(of_int \<bar>m\<bar> :: rat) < 2 ^ 53"
    using m by (metis of_int_less_iff of_int_numeral of_int_power)
  have "of_int \<bar>m\<bar> * pow2 e < 2 ^ 53 * pow2 e"
    using mr pow2_pos [of e] by (rule mult_strict_right_mono)
  also have "2 ^ 53 * pow2 e = pow2 (53 + e)"
    by (simp add: pow2_add pow2_nat)
  finally have lt: "a < pow2 (53 + e)" by (simp only: ax)
  from floor_log2_bounds [OF apos] have "pow2 (floor_log2 a) \<le> a" by simp
  with lt have "pow2 (floor_log2 a) < pow2 (53 + e)" by linarith
  then have "floor_log2 a < 53 + e" by (simp only: pow2_less)
  with e1 have le: "E \<le> e" by (simp add: E_def)
  have "pow2 e = pow2 ((e - E) + E)" by simp
  also have "\<dots> = pow2 (e - E) * pow2 E" by (rule pow2_add)
  also have "pow2 (e - E) = of_int (2 ^ nat (e - E))"
    using le by (simp add: pow2_nat)
  finally have split: "pow2 e = of_int (2 ^ nat (e - E)) * pow2 E" .
  have Epos: "pow2 E \<noteq> 0" using pow2_pos [of E] by simp
  have "a / pow2 E = of_int \<bar>m\<bar> * (of_int (2 ^ nat (e - E)) * pow2 E) / pow2 E"
    by (simp only: ax split [symmetric])
  also have "\<dots> = of_int (\<bar>m\<bar> * 2 ^ nat (e - E))"
    using Epos by simp
  finally have quot: "a / pow2 E = of_int (\<bar>m\<bar> * 2 ^ nat (e - E))" .
  have "of_int (round_half_even (a / pow2 E)) * pow2 E = a / pow2 E * pow2 E"
    by (simp only: quot round_half_even_int)
  also have "\<dots> = a" using Epos by simp
  finally have v: "of_int (round_half_even (a / pow2 E)) * pow2 E = a" .
  have "\<not> pow2 1024 < pow2 (53 + e)"
    unfolding pow2_less using e2 by simp
  with lt have small: "\<not> pow2 1024 \<le> a" by linarith
  have sg: "sgn x * a = x" by (simp add: a_def sgn_mult_abs)
  have "round_double x = (if pow2 1024 \<le> of_int (round_half_even (a / pow2 E)) * pow2 E
          then (if 0 < x then PInf else NInf)
          else Fin (sgn x * (of_int (round_half_even (a / pow2 E)) * pow2 E)))"
    using False unfolding round_double_def Let_def a_def E_def by (simp only: if_False)
  also have "\<dots> = Fin x"
    unfolding v using small sg by (simp only: if_False)
  finally show ?thesis .
qed

lemma is_double_int:
  assumes "\<bar>n\<bar> < 2 ^ 53"
  shows "is_double (of_int n)"
  unfolding is_double_def
proof (intro exI conjI)
  show "rat_of_int n = of_int n * pow2 0" by (simp add: pow2_def)
  show "\<bar>n\<bar> < 2 ^ 53" by (rule assms)
qed simp_all

lemma floor_log2_unique:
  assumes "0 < a" and lo: "pow2 k \<le> a" and hi: "a < pow2 (k + 1)"
  shows "floor_log2 a = k"
proof -
  from floor_log2_bounds [OF assms(1)]
  have "pow2 (floor_log2 a) \<le> a" "a < pow2 (floor_log2 a + 1)" by simp_all
  with lo hi have "pow2 (floor_log2 a) < pow2 (k + 1)" "pow2 k < pow2 (floor_log2 a + 1)"
    by linarith+
  then have "floor_log2 a < k + 1" "k < floor_log2 a + 1" by (simp_all only: pow2_less)
  then show ?thesis by simp
qed

lemma round_double_int: "\<bar>n\<bar> < 2 ^ 53 \<Longrightarrow> round_double (of_int n) = Fin (of_int n)"
  by (rule round_double_exact) (rule is_double_int)

lemma round_double_numeral:
  "(numeral w :: int) < 2 ^ 53 \<Longrightarrow> round_double (numeral w) = Fin (numeral w)"
  using round_double_int [of "numeral w"] by simp

lemma round_double_1: "round_double 1 = Fin 1"
  using round_double_int [of 1] by simp

lemma round_double_0: "round_double 0 = Fin 0"
  by (simp add: round_double_def)

lemmas float_simps = round_double_numeral round_double_1 round_double_0 fsub_def
  float_of_int_def

lemma flt_not_fle: "flt a b \<Longrightarrow> \<not> fle b a"
  by (cases a; cases b) simp_all

lemma fle_iff_not_flt: "a \<noteq> NaN \<Longrightarrow> b \<noteq> NaN \<Longrightarrow> fle b a \<longleftrightarrow> \<not> flt a b"
  by (cases a; cases b) auto

lemma daily_fine_exact:
  assumes "\<bar>d\<bar> < 2 ^ 53"
  shows "fmul (float_of_int d) DAILY_FINE = Fin (of_int d)"
  using assms by (simp add: float_of_int_def DAILY_FINE_def round_double_int)

lemma round_half_even_cases:
  "(round_half_even r = \<lfloor>r\<rfloor> \<and> r - of_int \<lfloor>r\<rfloor> \<le> 1 / 2)
   \<or> (round_half_even r = \<lfloor>r\<rfloor> + 1 \<and> 1 / 2 \<le> r - of_int \<lfloor>r\<rfloor>)"
  by (simp add: round_half_even_def Let_def)

lemma round_half_even_nearest: "\<bar>of_int (round_half_even r) - r\<bar> \<le> \<bar>of_int n - r\<bar>"
proof -
  define f where "f = \<lfloor>r\<rfloor>"
  define d where "d = r - of_int f"
  have d: "0 \<le> d" "d < 1" unfolding d_def f_def by linarith+
  have r: "r = of_int f + d" by (simp add: d_def)
  from round_half_even_cases [of r]
  have c: "(round_half_even r = f \<and> d \<le> 1 / 2) \<or> (round_half_even r = f + 1 \<and> 1 / 2 \<le> d)"
    by (simp add: f_def d_def)
  have n: "n \<le> f \<or> f + 1 \<le> n" by linarith
  then have far: "(of_int n :: rat) \<le> of_int f \<or> (of_int f :: rat) + 1 \<le> of_int n"
    by (metis of_int_1 of_int_add of_int_le_iff)
  have lo: "d \<le> \<bar>of_int n - r\<bar>" if "(of_int n :: rat) \<le> of_int f"
    using that d unfolding r by linarith
  have hi: "1 - d \<le> \<bar>of_int n - r\<bar>" if "(of_int f :: rat) + 1 \<le> of_int n"
    using that d unfolding r by linarith
  from c show ?thesis
  proof
    assume "round_half_even r = f \<and> d \<le> 1 / 2"
    then have e: "\<bar>of_int (round_half_even r) - r\<bar> = d" and h: "d \<le> 1 / 2"
      using d by (simp_all add: r)
    from far show ?thesis
    proof
      assume "(of_int n :: rat) \<le> of_int f"
      from lo [OF this] show ?thesis unfolding e .
    next
      assume "(of_int f :: rat) + 1 \<le> of_int n"
      from hi [OF this] h show ?thesis unfolding e by linarith
    qed
  next
    assume "round_half_even r = f + 1 \<and> 1 / 2 \<le> d"
    then have e: "\<bar>of_int (round_half_even r) - r\<bar> = 1 - d" and h: "1 / 2 \<le> d"
      using d by (simp_all add: r)
    from far show ?thesis
    proof
      assume "(of_int n :: rat) \<le> of_int f"
      from lo [OF this] h show ?thesis unfolding e by linarith
    next
      assume "(of_int f :: rat) + 1 \<le> of_int n"
      from hi [OF this] show ?thesis unfolding e .
    qed
  qed
qed

lemma pow2_numeral: "pow2 (numeral w) = 2 ^ numeral w"
  by (simp add: pow2_def)

lemma pow2_1: "pow2 1 = 2"
  by (simp add: pow2_def)

lemma pow2_le: "pow2 j \<le> pow2 k \<longleftrightarrow> j \<le> k"
  using pow2_less [of k j] by (simp add: not_less [symmetric])

lemma pow2_diff: "pow2 (j - k) = pow2 j / pow2 k"
  by (simp add: pow2_def power_int_diff)

text \<open>The parts of a finite result of rounding a number that is not zero.\<close>

lemma round_double_anatomy:
  assumes r: "round_double x = Fin y" and nz: "x \<noteq> 0"
  obtains E n where "E = max (floor_log2 \<bar>x\<bar> - 52) (- 1074)"
    and "n = round_half_even (\<bar>x\<bar> / pow2 E)"
    and "y = sgn x * (of_int n * pow2 E)"
    and "of_int n * pow2 E < pow2 1024"
    and "0 \<le> n" and "n \<le> 2 ^ 53"
    and "floor_log2 \<bar>x\<bar> - 52 = E \<longrightarrow> 2 ^ 52 \<le> n"
proof -
  define a where "a = \<bar>x\<bar>"
  define k where "k = floor_log2 a"
  define E where "E = max (k - 52) (- 1074)"
  define q where "q = a / pow2 E"
  define n where "n = round_half_even q"
  have apos: "0 < a" using nz by (simp add: a_def)
  have Epos: "0 < pow2 E" by (rule pow2_pos)
  from floor_log2_bounds [OF apos] have lo: "pow2 k \<le> a" and hi: "a < pow2 (k + 1)"
    by (simp_all add: k_def)
  have unf: "round_double x = (if pow2 1024 \<le> of_int n * pow2 E
          then (if 0 < x then PInf else NInf) else Fin (sgn x * (of_int n * pow2 E)))"
    using nz unfolding round_double_def Let_def n_def q_def E_def k_def a_def
    by (simp only: if_False)
  have small: "of_int n * pow2 E < pow2 1024"
  proof (rule ccontr)
    assume "\<not> of_int n * pow2 E < pow2 1024"
    then have "pow2 1024 \<le> of_int n * pow2 E" by simp
    with unf r show False by (simp split: if_splits)
  qed
  then have y: "y = sgn x * (of_int n * pow2 E)"
    using unf r by (simp split: if_splits)
  have qpos: "0 < q" using apos Epos by (simp add: q_def)
  have "k - 52 \<le> E" by (simp add: E_def)
  then have "pow2 (k - 52) \<le> pow2 E" by (simp only: pow2_le)
  then have "a / pow2 E \<le> a / pow2 (k - 52)"
    using apos pow2_pos [of "k - 52"] by (simp add: frac_le)
  also have "\<dots> < pow2 (k + 1) / pow2 (k - 52)"
    using hi pow2_pos [of "k - 52"] by (simp add: divide_strict_right_mono)
  also have "\<dots> = pow2 53"
    by (simp add: pow2_diff [symmetric])
  also have "\<dots> = 2 ^ 53" by (simp add: pow2_def)
  finally have qlt: "q < 2 ^ 53" by (simp only: q_def)
  have near: "\<bar>of_int n - q\<bar> \<le> 1 / 2" unfolding n_def by (rule round_half_even_near)
  from near qpos have "(- 1 :: rat) < of_int n" by linarith
  then have n0: "0 \<le> n" by linarith
  from near qlt have "(of_int n :: rat) < 2 ^ 53 + 1" by linarith
  then have "(of_int n :: rat) < of_int (2 ^ 53 + 1)" by simp
  then have "n < 2 ^ 53 + 1" by (simp only: of_int_less_iff)
  then have n1: "n \<le> 2 ^ 53" by simp
  have n2: "2 ^ 52 \<le> n" if "k - 52 = E"
  proof -
    have "pow2 52 = pow2 k / pow2 (k - 52)" by (simp add: pow2_diff [symmetric])
    also have "\<dots> \<le> a / pow2 (k - 52)"
      using lo pow2_pos [of "k - 52"] by (simp add: divide_right_mono)
    finally have "pow2 52 \<le> q" by (simp only: q_def that)
    then have "(2 ^ 52 :: rat) \<le> q" by (simp add: pow2_def)
    with near have "(2 ^ 52 - 1 :: rat) < of_int n" by linarith
    then have "(of_int (2 ^ 52 - 1) :: rat) < of_int n" by simp
    then have "2 ^ 52 - 1 < n" by (simp only: of_int_less_iff)
    then show ?thesis by simp
  qed
  show ?thesis
  proof (rule that [of E n])
    show "E = max (floor_log2 \<bar>x\<bar> - 52) (- 1074)" by (simp add: E_def k_def a_def)
    show "n = round_half_even (\<bar>x\<bar> / pow2 E)" by (simp add: n_def q_def a_def)
    show "y = sgn x * (of_int n * pow2 E)" by (rule y)
    show "of_int n * pow2 E < pow2 1024" by (rule small)
    show "0 \<le> n" by (rule n0)
    show "n \<le> 2 ^ 53" by (rule n1)
    show "floor_log2 \<bar>x\<bar> - 52 = E \<longrightarrow> 2 ^ 52 \<le> n"
      using n2 by (simp add: k_def a_def)
  qed
qed

lemma sgn_rat_cases:
  assumes "x \<noteq> (0::rat)"
  obtains s :: int where "sgn x = of_int s" and "\<bar>s\<bar> = 1"
proof (cases "0 < x")
  case True
  then have "sgn x = of_int 1" by simp
  then show ?thesis by (rule that) simp
next
  case False
  with assms have "sgn x = of_int (- 1)" by simp
  then show ?thesis by (rule that) simp
qed

text \<open>
  A finite result of rounding is a binary64 number, and no binary64 number is nearer to
  the number rounded.
\<close>

lemma round_double_is_double:
  assumes r: "round_double x = Fin y"
  shows "is_double y"
proof (cases "x = 0")
  case True
  with r have "y = 0" by (simp add: round_double_def)
  then have "y = of_int 0 * pow2 0" by simp
  then show ?thesis
    unfolding is_double_def by (intro exI [of _ 0] conjI) simp_all
next
  case False
  from r False obtain E n where E: "E = max (floor_log2 \<bar>x\<bar> - 52) (- 1074)"
    and y: "y = sgn x * (of_int n * pow2 E)"
    and small: "of_int n * pow2 E < pow2 1024"
    and n0: "0 \<le> n" and n1: "n \<le> 2 ^ 53"
    and n2: "floor_log2 \<bar>x\<bar> - 52 = E \<longrightarrow> 2 ^ 52 \<le> n"
    by (rule round_double_anatomy)
  from False obtain s :: int where s: "sgn x = of_int s" "\<bar>s\<bar> = 1"
    by (rule sgn_rat_cases)
  have Elo: "- 1074 \<le> E" by (simp add: E)
  show ?thesis
  proof (cases "n < 2 ^ 53")
    case True
    have "E \<le> 971"
    proof (rule ccontr)
      assume "\<not> E \<le> 971"
      then have big: "972 \<le> E" by simp
      with E have "floor_log2 \<bar>x\<bar> - 52 = E" by simp
      with n2 have "2 ^ 52 \<le> n" by simp
      then have "(of_int (2 ^ 52) :: rat) \<le> of_int n" by (simp only: of_int_le_iff)
      then have "(2 ^ 52 :: rat) \<le> of_int n" by simp
      moreover from big have "pow2 972 \<le> pow2 E" by (simp only: pow2_le)
      moreover have "(0::rat) \<le> 2 ^ 52" "0 \<le> pow2 972"
        using pow2_pos [of 972] by simp_all
      ultimately have "2 ^ 52 * pow2 972 \<le> of_int n * pow2 E"
        by (intro mult_mono) simp_all
      moreover have "2 ^ 52 * pow2 972 = pow2 1024"
        by (simp add: pow2_def power_int_add)
      ultimately show False using small by simp
    qed
    moreover have "y = of_int (s * n) * pow2 E" by (simp add: y s)
    moreover have "\<bar>s * n\<bar> < 2 ^ 53" using True n0 s by (simp add: abs_mult)
    ultimately show ?thesis
      unfolding is_double_def using Elo by blast
  next
    case False
    with n1 have n: "n = 2 ^ 53" by simp
    have "pow2 (E + 53) = of_int n * pow2 E"
      by (simp add: n pow2_add pow2_numeral)
    with small have "pow2 (E + 53) < pow2 1024" by simp
    then have "E + 53 < 1024" by (simp only: pow2_less)
    then have "E + 1 \<le> 971" by simp
    moreover have "y = of_int (s * 2 ^ 52) * pow2 (E + 1)"
      by (simp add: y s n pow2_add pow2_numeral pow2_1)
    moreover have "\<bar>s * 2 ^ 52\<bar> < 2 ^ 53" using s by (simp add: abs_mult)
    moreover have "- 1074 \<le> E + 1" using Elo by simp
    ultimately show ?thesis
      unfolding is_double_def by blast
  qed
qed

lemma round_double_nearest:
  assumes r: "round_double x = Fin y" and d: "is_double d"
  shows "\<bar>y - x\<bar> \<le> \<bar>d - x\<bar>"
proof (cases "x = 0")
  case True
  with r have "y = 0" by (simp add: round_double_def)
  with True show ?thesis by simp
next
  case False
  define a where "a = \<bar>x\<bar>"
  define k where "k = floor_log2 a"
  have apos: "0 < a" using False by (simp add: a_def)
  from floor_log2_bounds [OF apos] have lo: "pow2 k \<le> a" by (simp add: k_def)
  from r False obtain E n where E: "E = max (k - 52) (- 1074)"
    and n: "n = round_half_even (a / pow2 E)"
    and y: "y = sgn x * (of_int n * pow2 E)"
    unfolding k_def a_def by (rule round_double_anatomy)
  define q where "q = a / pow2 E"
  have Epos: "0 < pow2 E" by (rule pow2_pos)
  have aq: "a = q * pow2 E" using Epos by (simp add: q_def)
  have x: "x = sgn x * a" by (simp add: a_def sgn_mult_abs)
  have "y - x = sgn x * (of_int n * pow2 E - a)"
    by (subst x) (simp add: y algebra_simps)
  then have "\<bar>y - x\<bar> = \<bar>sgn x\<bar> * \<bar>of_int n * pow2 E - a\<bar>"
    by (simp only: abs_mult)
  also have "\<bar>sgn x\<bar> = 1" using False by (simp add: abs_sgn_eq)
  finally have lhs: "\<bar>y - x\<bar> = \<bar>of_int n * pow2 E - a\<bar>" by simp
  have grid: "\<bar>of_int n * pow2 E - a\<bar> \<le> \<bar>of_int N * pow2 E - a\<bar>" for N
  proof -
    have "\<bar>of_int n - q\<bar> \<le> \<bar>of_int N - q\<bar>"
      unfolding n q_def by (rule round_half_even_nearest)
    then have "\<bar>of_int n - q\<bar> * pow2 E \<le> \<bar>of_int N - q\<bar> * pow2 E"
      using Epos by (simp add: mult_right_mono)
    moreover have "\<bar>of_int M - q\<bar> * pow2 E = \<bar>of_int M * pow2 E - a\<bar>" for M
    proof -
      have "of_int M * pow2 E - a = (of_int M - q) * pow2 E"
        by (simp add: aq algebra_simps)
      then show ?thesis using Epos by (simp add: abs_mult)
    qed
    ultimately show ?thesis by simp
  qed
  from d obtain m e where dm: "d = of_int m * pow2 e" and m: "\<bar>m\<bar> < 2 ^ 53"
    and e1: "- 1074 \<le> e"
    unfolding is_double_def by blast
  have dabs: "\<bar>d\<bar> = of_int \<bar>m\<bar> * pow2 e"
    using pow2_pos [of e] by (simp add: dm abs_mult)
  have rev: "\<bar>\<bar>d\<bar> - a\<bar> \<le> \<bar>d - x\<bar>"
    unfolding a_def by (rule abs_triangle_ineq3)
  show ?thesis
  proof (cases "E \<le> e")
    case True
    have "pow2 e = pow2 ((e - E) + E)" by simp
    also have "\<dots> = pow2 (e - E) * pow2 E" by (rule pow2_add)
    also have "pow2 (e - E) = of_int (2 ^ nat (e - E))"
      using True by (simp add: pow2_nat)
    finally have "\<bar>d\<bar> = of_int (\<bar>m\<bar> * 2 ^ nat (e - E)) * pow2 E"
      by (simp add: dabs)
    with grid [of "\<bar>m\<bar> * 2 ^ nat (e - E)"] have "\<bar>of_int n * pow2 E - a\<bar> \<le> \<bar>\<bar>d\<bar> - a\<bar>"
      by simp
    with lhs rev show ?thesis by linarith
  next
    case False
    with e1 E have Ek: "E = k - 52" by simp
    from False have "e + 1 \<le> E" by simp
    have "(of_int \<bar>m\<bar> :: rat) < of_int (2 ^ 53)" using m by (simp only: of_int_less_iff)
    then have "(of_int \<bar>m\<bar> :: rat) < 2 ^ 53" by simp
    then have "of_int \<bar>m\<bar> * pow2 e < 2 ^ 53 * pow2 e"
      using pow2_pos [of e] by (rule mult_strict_right_mono)
    also have "2 ^ 53 * pow2 e = pow2 (e + 53)" by (simp add: pow2_add pow2_numeral)
    also have "\<dots> \<le> pow2 k" using \<open>e + 1 \<le> E\<close> Ek by (simp only: pow2_le)
    finally have below: "\<bar>d\<bar> < pow2 k" by (simp only: dabs)
    have "pow2 k = pow2 (52 + E)" by (simp add: Ek)
    also have "\<dots> = of_int (2 ^ 52) * pow2 E" by (simp add: pow2_add pow2_numeral)
    finally have pk: "pow2 k = of_int (2 ^ 52) * pow2 E" .
    from grid [of "2 ^ 52"] have "\<bar>of_int n * pow2 E - a\<bar> \<le> \<bar>pow2 k - a\<bar>"
      by (simp only: pk)
    also from lo below have "\<bar>pow2 k - a\<bar> \<le> \<bar>\<bar>d\<bar> - a\<bar>" by linarith
    finally show ?thesis using lhs rev by linarith
  qed
qed

text \<open>The float 1.0 less the float 0.1 is the float 0.9.\<close>

lemma one_minus_tenth:
  "round_double (1 - 3602879701896397 / 36028797018963968)
     = Fin (8106479329266893 / 9007199254740992)"
proof -
  have k: "floor_log2 (32425917317067571 / 36028797018963968) = - 1"
    by (rule floor_log2_unique) (simp_all add: pow2_def)
  have f: "\<lfloor>32425917317067571 / 4 :: rat\<rfloor> = 8106479329266892"
    by (rule floor_unique) simp_all
  show ?thesis
    by (simp add: round_double_def k pow2_def round_half_even_def Let_def f)
qed

lemma is_double_tenth: "is_double (3602879701896397 / 36028797018963968)"
proof -
  have "(3602879701896397 / 36028797018963968 :: rat) = of_int 3602879701896397 * pow2 (- 55)"
    by (simp add: pow2_def)
  moreover have "\<bar>3602879701896397 :: int\<bar> < 2 ^ 53" by simp
  ultimately show ?thesis
    unfolding is_double_def by (intro exI [of _ 3602879701896397] exI [of _ "- 55"]) simp
qed

section \<open>Properties of the entities\<close>

lemma book_step_total: "total_copies (book_step b c) = total_copies b"
  by (cases c) (simp_all add: borrow_copy_def return_copy_def)

lemma book_step_range:
  "0 \<le> available_copies b \<and> available_copies b \<le> total_copies b \<Longrightarrow>
   0 \<le> available_copies (book_step b c) \<and>
   available_copies (book_step b c) \<le> total_copies (book_step b c)"
  by (cases c) (auto simp: borrow_copy_def return_copy_def)

lemma book_calls_range:
  "0 \<le> available_copies b \<and> available_copies b \<le> total_copies b \<Longrightarrow>
   0 \<le> available_copies (book_calls b cs) \<and>
   available_copies (book_calls b cs) \<le> total_copies (book_calls b cs)"
  unfolding book_calls_def
proof (induction cs arbitrary: b)
  case Nil
  then show ?case by simp
next
  case (Cons c cs)
  have "0 \<le> available_copies (book_step b c) \<and>
        available_copies (book_step b c) \<le> total_copies (book_step b c)"
    using Cons.prems by (rule book_step_range)
  then show ?case using Cons.IH by simp
qed

lemma book_calls_total: "total_copies (book_calls b cs) = total_copies b"
  unfolding book_calls_def
  by (induction cs arbitrary: b) (simp_all add: book_step_total)

text \<open>
  C3. A book created with a non-negative number of copies keeps
  \<open>0 \<le> available_copies \<le> total_copies\<close> through every sequence of \<open>borrow_copy\<close> and
  \<open>return_copy\<close> calls; \<open>borrow_copy\<close> with no copy available and \<open>return_copy\<close> with
  every copy available both fail and leave the book as it is.
\<close>

theorem book_copies_invariant:
  assumes "0 \<le> n"
  shows "0 \<le> available_copies (book_calls (Book i t a p y n) cs)
       \<and> available_copies (book_calls (Book i t a p y n) cs) \<le> n
       \<and> total_copies (book_calls (Book i t a p y n) cs) = n
       \<and> (available_copies b = 0 \<longrightarrow> borrow_copy b = (False, b))
       \<and> (available_copies b = total_copies b \<longrightarrow> return_copy b = (False, b))"
proof -
  let ?b0 = "Book i t a p y n"
  have start: "0 \<le> available_copies ?b0 \<and> available_copies ?b0 \<le> total_copies ?b0"
    using assms by (simp add: Book_def)
  have tot: "total_copies (book_calls ?b0 cs) = n"
    by (simp add: book_calls_total Book_def)
  from book_calls_range [OF start, of cs] tot
  have rng: "0 \<le> available_copies (book_calls ?b0 cs)
           \<and> available_copies (book_calls ?b0 cs) \<le> n"
    by simp
  have edge1: "available_copies b = 0 \<longrightarrow> borrow_copy b = (False, b)"
    by (simp add: borrow_copy_def)
  have edge2: "available_copies b = total_copies b \<longrightarrow> return_copy b = (False, b)"
    by (simp add: return_copy_def)
  from rng tot edge1 edge2 show ?thesis by blast
qed

theorem book_copies_invariant_witness:
  "(0::int) \<le> 2
   \<and> available_copies (book_calls (Book ''1111111111'' ''X'' ''Y'' ''Z'' 2020 2)
        [BorrowCopy, BorrowCopy, BorrowCopy, ReturnCopy]) = 1
   \<and> 0 \<le> available_copies (book_calls (Book ''1111111111'' ''X'' ''Y'' ''Z'' 2020 2)
        [BorrowCopy, BorrowCopy, BorrowCopy, ReturnCopy])
   \<and> available_copies (book_calls (Book ''1111111111'' ''X'' ''Y'' ''Z'' 2020 2)
        [BorrowCopy, BorrowCopy, BorrowCopy, ReturnCopy]) \<le> 2
   \<and> borrow_copy (book_calls (Book ''1111111111'' ''X'' ''Y'' ''Z'' 2020 2)
        [BorrowCopy, BorrowCopy])
       = (False, book_calls (Book ''1111111111'' ''X'' ''Y'' ''Z'' 2020 2)
        [BorrowCopy, BorrowCopy])
   \<and> return_copy (Book ''1111111111'' ''X'' ''Y'' ''Z'' 2020 2)
       = (False, Book ''1111111111'' ''X'' ''Y'' ''Z'' 2020 2)"
proof -
  let ?b = "Book ''1111111111'' ''X'' ''Y'' ''Z'' 2020 2"
  let ?cs = "[BorrowCopy, BorrowCopy, BorrowCopy, ReturnCopy]"
  have h: "(0::int) \<le> 2" by simp
  have run: "available_copies (book_calls ?b ?cs) = 1"
    by (simp add: book_calls_def Book_def borrow_copy_def return_copy_def)
  have none: "available_copies (book_calls ?b [BorrowCopy, BorrowCopy]) = 0"
    by (simp add: book_calls_def Book_def borrow_copy_def)
  have full: "available_copies ?b = total_copies ?b"
    by (simp add: Book_def)
  from book_copies_invariant [OF h, of "''1111111111''" "''X''" "''Y''" "''Z''" 2020 ?cs]
  have rng: "0 \<le> available_copies (book_calls ?b ?cs)"
    "available_copies (book_calls ?b ?cs) \<le> 2"
    by blast+
  from book_copies_invariant [OF h, where b = "book_calls ?b [BorrowCopy, BorrowCopy]"] none
  have e1: "borrow_copy (book_calls ?b [BorrowCopy, BorrowCopy])
       = (False, book_calls ?b [BorrowCopy, BorrowCopy])"
    by blast
  from book_copies_invariant [OF h, where b = ?b] full
  have e2: "return_copy ?b = (False, ?b)"
    by blast
  from h run rng e1 e2 show ?thesis by blast
qed

text \<open>
  C8. \<open>pay_fine\<close> succeeds exactly when \<open>amount <= total_fines\<close> holds of the two
  floats. It then sets \<open>total_fines\<close> to the float \<open>total_fines - amount\<close> and changes
  nothing else. For finite numbers with a finite result, the result is a binary64 number
  with no binary64 number nearer to the exact difference; when the exact difference is a
  binary64 number, \<open>total_fines\<close> has decreased by exactly the amount. A larger amount
  is refused and the member is unchanged.
\<close>

theorem pay_fine_spec:
  "(fst (pay_fine m amount) \<longleftrightarrow> fle amount (total_fines m))
   \<and> (fle amount (total_fines m) \<longrightarrow>
        snd (pay_fine m amount) = m\<lparr>total_fines := fsub (total_fines m) amount\<rparr>)
   \<and> (fle amount (total_fines m) \<and> total_fines m = Fin x \<and> amount = Fin y
        \<and> total_fines (snd (pay_fine m amount)) = Fin z \<and> is_double d \<longrightarrow>
        is_double z \<and> \<bar>z - (x - y)\<bar> \<le> \<bar>d - (x - y)\<bar>)
   \<and> (total_fines m = Fin x \<and> amount = Fin y \<and> y \<le> x \<and> is_double (x - y) \<longrightarrow>
        pay_fine m amount = (True, m\<lparr>total_fines := Fin (x - y)\<rparr>))
   \<and> (flt (total_fines m) amount \<longrightarrow> pay_fine m amount = (False, m))
   \<and> (\<not> fle amount (total_fines m) \<longrightarrow> pay_fine m amount = (False, m))"
proof -
  have a: "fst (pay_fine m amount) \<longleftrightarrow> fle amount (total_fines m)"
    by (simp add: pay_fine_def)
  have b: "snd (pay_fine m amount) = m\<lparr>total_fines := fsub (total_fines m) amount\<rparr>"
    if "fle amount (total_fines m)"
    using that by (simp add: pay_fine_def)
  have n: "is_double z \<and> \<bar>z - (x - y)\<bar> \<le> \<bar>d - (x - y)\<bar>"
    if h: "fle amount (total_fines m) \<and> total_fines m = Fin x \<and> amount = Fin y
        \<and> total_fines (snd (pay_fine m amount)) = Fin z \<and> is_double d"
  proof -
    from h have le: "fle amount (total_fines m)" and tx: "total_fines m = Fin x"
      and ay: "amount = Fin y" and tz: "total_fines (snd (pay_fine m amount)) = Fin z"
      by blast+
    from b [OF le] have eq: "total_fines (snd (pay_fine m amount)) = fsub (total_fines m) amount"
      by simp
    have "fsub (Fin x) (Fin y) = Fin z" using eq tz by (simp add: tx ay)
    then have r: "round_double (x - y) = Fin z" by (simp add: fsub_def)
    from r have "is_double z" by (rule round_double_is_double)
    moreover from r h have "\<bar>z - (x - y)\<bar> \<le> \<bar>d - (x - y)\<bar>"
      by (simp add: round_double_nearest)
    ultimately show ?thesis by simp
  qed
  have c: "pay_fine m amount = (True, m\<lparr>total_fines := Fin (x - y)\<rparr>)"
    if "total_fines m = Fin x \<and> amount = Fin y \<and> y \<le> x \<and> is_double (x - y)"
  proof -
    from that have "round_double (x - y) = Fin (x - y)" by (simp add: round_double_exact)
    with that show ?thesis by (simp add: pay_fine_def fsub_def)
  qed
  have d: "pay_fine m amount = (False, m)" if "\<not> fle amount (total_fines m)"
    using that by (simp add: pay_fine_def)
  have e: "pay_fine m amount = (False, m)" if "flt (total_fines m) amount"
    using that d flt_not_fle by blast
  from a b n c d e show ?thesis by blast
qed

theorem pay_fine_spec_witness:
  "total_fines (add_fine ex_debtor (Fin 13)) = Fin 14
   \<and> fst (pay_fine (add_fine ex_debtor (Fin 13)) (Fin 4))
   \<and> total_fines (snd (pay_fine (add_fine ex_debtor (Fin 13)) (Fin 4))) = Fin 10
   \<and> pay_fine (add_fine ex_debtor (Fin 13)) (Fin 15) = (False, add_fine ex_debtor (Fin 13))
   \<and> total_fines (snd (pay_fine ex_debtor ex_tenth)) = Fin (8106479329266893 / 9007199254740992)
   \<and> is_double (8106479329266893 / 9007199254740992)
   \<and> \<bar>8106479329266893 / 9007199254740992 - (1 - 3602879701896397 / 36028797018963968)\<bar>
        \<le> \<bar>1 - (1 - 3602879701896397 / 36028797018963968 :: rat)\<bar>"
proof -
  let ?m = "add_fine ex_debtor (Fin 13)"
  have tf: "total_fines ?m = Fin 14"
    by (simp add: ex_debtor_def add_fine_def Member_def float_simps)
  have "is_double (of_int 10)" by (rule is_double_int) simp
  then have ok: "total_fines ?m = Fin 14 \<and> Fin 4 = Fin 4 \<and> (4::rat) \<le> 14 \<and> is_double (14 - 4)"
    using tf by simp
  have le: "fle (Fin 4) (total_fines ?m)" and gt: "flt (total_fines ?m) (Fin 15)"
    using tf by simp_all
  from pay_fine_spec [of ?m "Fin 4" 14 4] ok le
  have a: "fst (pay_fine ?m (Fin 4))"
    and b: "pay_fine ?m (Fin 4) = (True, ?m\<lparr>total_fines := Fin (14 - 4)\<rparr>)"
    by blast+
  from pay_fine_spec [of ?m "Fin 15"] gt have c: "pay_fine ?m (Fin 15) = (False, ?m)"
    by blast
  have one: "total_fines ex_debtor = Fin 1"
    by (simp add: ex_debtor_def add_fine_def Member_def float_simps)
  have d1: "is_double 1" using is_double_int [of 1] by simp
  have paid: "total_fines (snd (pay_fine ex_debtor ex_tenth))
                = Fin (8106479329266893 / 9007199254740992)"
    using one one_minus_tenth by (simp add: pay_fine_def ex_tenth_def fsub_def)
  have le1: "fle ex_tenth (total_fines ex_debtor)"
    using one by (simp add: ex_tenth_def)
  from pay_fine_spec [of ex_debtor ex_tenth 1 "3602879701896397 / 36028797018963968"
      "8106479329266893 / 9007199254740992" 1] le1 one paid d1
  have near: "is_double (8106479329266893 / 9007199254740992)
     \<and> \<bar>8106479329266893 / 9007199254740992 - (1 - 3602879701896397 / 36028797018963968)\<bar>
        \<le> \<bar>1 - (1 - 3602879701896397 / 36028797018963968 :: rat)\<bar>"
    unfolding ex_tenth_def by blast
  from a b c tf paid near show ?thesis by simp
qed

text \<open>
  That \<open>total_fines\<close> decreases by exactly the amount each time, as the specification
  has it, fails for the member who owes 1.0 and pays 0.1: the payment succeeds and
  leaves 0.9, the binary64 number nearest to the exact difference and not equal to it.
\<close>

theorem pay_fine_rounds:
  "total_fines ex_debtor = Fin 1
   \<and> fst (pay_fine ex_debtor ex_tenth)
   \<and> total_fines (snd (pay_fine ex_debtor ex_tenth)) = Fin (8106479329266893 / 9007199254740992)
   \<and> Fin (8106479329266893 / 9007199254740992) \<noteq> Fin (1 - 3602879701896397 / 36028797018963968)
   \<and> is_double 1 \<and> is_double (3602879701896397 / 36028797018963968)"
proof -
  have one: "is_double 1"
    using is_double_int [of 1] by simp
  have tf: "total_fines ex_debtor = Fin 1"
    by (simp add: ex_debtor_def add_fine_def Member_def float_simps)
  from tf one_minus_tenth one is_double_tenth show ?thesis
    by (simp add: pay_fine_def ex_tenth_def fsub_def)
qed

section \<open>Evaluation of the example states\<close>

lemmas lib_defs = run_def new_library_def Library_def load_from_db_def init_db_def
  load_book_def load_member_def
  add_book_def add_member_def db_add_book_def db_add_member_def borrow_book_def return_book_def
  borrow_copy_def return_copy_def add_borrowed_book_def remove_borrowed_book_def add_fine_def
  record_borrowing_def record_return_def calculate_fine_def fetch_open_record_def
  open_records_def is_open_for_def Book_def Member_def timedelta_days_def
  BORROWING_PERIOD_DAYS_def DAILY_FINE_def days_def float_simps Let_def

lemmas ex_defs = ex_setup_def ex_library_def ex_holding_def ex_twice_def ex_store_def
  ex_guarded_def ex_unreturned_def

section \<open>Loading the library from the store\<close>

lemma fold_load_member_dom:
  "dom (foldl load_member ms rows) = dom ms \<union> set (map row_member_id rows)"
  by (induction rows arbitrary: ms) (auto simp: load_member_def)

lemma fold_load_book_dom:
  "dom (foldl load_book bs rows) = dom bs \<union> set (map row_isbn rows)"
  by (induction rows arbitrary: bs) (auto simp: load_book_def)

lemma fold_load_member_empty:
  "\<forall>k mem. ms k = Some mem \<longrightarrow> borrowed_books mem = [] \<Longrightarrow>
   foldl load_member ms rows k = Some mem \<Longrightarrow> borrowed_books mem = []"
proof (induction rows arbitrary: ms)
  case Nil
  then show ?case by simp
next
  case (Cons row rows)
  have "\<forall>k mem. load_member ms row k = Some mem \<longrightarrow> borrowed_books mem = []"
    using Cons.prems(1) by (auto simp: load_member_def Member_def)
  from Cons.IH [OF this] Cons.prems(2) show ?case by simp
qed

lemma loaded_borrowed_books:
  "members (Library db) k = Some mem \<Longrightarrow> borrowed_books mem = []"
  unfolding Library_def load_from_db_def
  using fold_load_member_empty [of Map.empty "members_table db" k mem] by simp

text \<open>
  C9. Whatever the store holds, every member that \<open>Library.__init__\<close> loads has an
  empty \<open>borrowed_books\<close>; so \<open>return_book\<close> on the library just loaded, for a member
  and a book of the store, answers "This book was not borrowed by this member" and
  changes nothing, open borrowing records or not.
\<close>

theorem restart_forgets_loans:
  "(\<forall>k mem. members (Library db) k = Some mem \<longrightarrow> borrowed_books mem = [])
   \<and> (m \<in> set (map row_member_id (members_table db))
        \<and> i \<in> set (map row_isbn (books_table db))
        \<longrightarrow> return_book (Library db) m i now1 now2 ts ok
            = ((False, Msg ''This book was not borrowed by this member''), Library db))"
proof -
  have a: "\<forall>k mem. members (Library db) k = Some mem \<longrightarrow> borrowed_books mem = []"
    using loaded_borrowed_books by blast
  have b: "return_book (Library db) m i now1 now2 ts ok
            = ((False, Msg ''This book was not borrowed by this member''), Library db)"
    if hm: "m \<in> set (map row_member_id (members_table db))"
    and hi: "i \<in> set (map row_isbn (books_table db))"
  proof -
    have "m \<in> dom (members (Library db))"
      using hm by (simp add: Library_def load_from_db_def fold_load_member_dom)
    then obtain mem where mem: "members (Library db) m = Some mem" by blast
    have "i \<in> dom (books (Library db))"
      using hi by (simp add: Library_def load_from_db_def fold_load_book_dom)
    then obtain bk where bk: "books (Library db) i = Some bk" by blast
    have e: "borrowed_books mem = []" using a mem by blast
    have upd: "(members (Library db))(m \<mapsto> mem) = members (Library db)"
      using mem by (rule map_upd_triv)
    show ?thesis
      by (simp add: return_book_def mem bk remove_borrowed_book_def e upd)
  qed
  from a b show ?thesis by blast
qed

theorem restart_forgets_loans_witness:
  "length (open_records ex_store ''M1'' ''1111111111'') = 1
   \<and> map_option borrowed_books (members (Library ex_store) ''M1'') = Some []
   \<and> return_book (Library ex_store) ''M1'' ''1111111111'' 5 5 5 True
       = ((False, Msg ''This book was not borrowed by this member''), Library ex_store)"
proof -
  have w1: "length (open_records ex_store ''M1'' ''1111111111'') = 1"
    by (simp add: ex_defs lib_defs)
  have w2: "''M1'' \<in> set (map row_member_id (members_table ex_store))
        \<and> ''1111111111'' \<in> set (map row_isbn (books_table ex_store))"
    by (simp add: ex_defs lib_defs)
  have w3: "members (Library ex_store) ''M1'' \<noteq> None"
    by (simp add: ex_defs lib_defs)
  from restart_forgets_loans [of ex_store "''M1''" "''1111111111''" 5 5 5 True] w1 w2 w3
  show ?thesis by auto
qed

section \<open>Borrowing and returning\<close>

text \<open>
  C5. When the member holds the book and the write of the return fails, \<open>return_book\<close>
  answers "Failed to record return", the store is as before, and what was done in memory
  stays: the copy given back by \<open>return_copy\<close>, the isbn removed from
  \<open>borrowed_books\<close>, and a positive fine added, as floats add, to \<open>total_fines\<close>.
\<close>

theorem return_failure_keeps_mutations:
  assumes mem: "members l m = Some mem" and bk: "books l i = Some bk"
    and held: "i \<in> set (borrowed_books mem)"
  shows "fst (return_book l m i now1 now2 ts False) = (False, Msg ''Failed to record return'')
       \<and> database (snd (return_book l m i now1 now2 ts False)) = database l
       \<and> books (snd (return_book l m i now1 now2 ts False)) i = Some (snd (return_copy bk))
       \<and> map_option available_copies (books (snd (return_book l m i now1 now2 ts False)) i)
           = Some (if available_copies bk < total_copies bk
                   then available_copies bk + 1 else available_copies bk)
       \<and> map_option borrowed_books (members (snd (return_book l m i now1 now2 ts False)) m)
           = Some (remove1 i (borrowed_books mem))
       \<and> map_option total_fines (members (snd (return_book l m i now1 now2 ts False)) m)
           = Some (if flt (Fin 0) (calculate_fine (database l) m i now1 now2)
                   then fadd (total_fines mem) (calculate_fine (database l) m i now1 now2)
                   else total_fines mem)"
  using held
  by (simp add: return_book_def mem bk remove_borrowed_book_def record_return_def Let_def
        return_copy_def add_fine_def)

text \<open>
  The loan of \<open>ex_holding\<close> is due after 14 days; it is returned two and a half days
  late and the store refuses the write.
\<close>

theorem return_failure_keeps_mutations_witness:
  "map_option borrowed_books (members ex_holding ''M1'') = Some [''1111111111'']
   \<and> map_option available_copies (books ex_holding ''1111111111'') = Some 1
   \<and> fst (return_book ex_holding ''M1'' ''1111111111'' 1425600000000 1425600000000 1425600 False)
       = (False, Msg ''Failed to record return'')
   \<and> map_option available_copies
        (books (snd (return_book ex_holding ''M1'' ''1111111111''
                       1425600000000 1425600000000 1425600 False)) ''1111111111'') = Some 2
   \<and> map_option borrowed_books
        (members (snd (return_book ex_holding ''M1'' ''1111111111''
                       1425600000000 1425600000000 1425600 False)) ''M1'') = Some []
   \<and> map_option total_fines
        (members (snd (return_book ex_holding ''M1'' ''1111111111''
                       1425600000000 1425600000000 1425600 False)) ''M1'') = Some (Fin 2)"
proof -
  let ?mem = "\<lparr>member_id = ''M1'', name = ''Ann'', email = ''ann@example.org'',
     phone = ''555'', address = ''1 Main St'', is_active = True,
     borrowed_books = [''1111111111''], total_fines = Fin 0\<rparr>"
  let ?bk = "\<lparr>isbn = ''1111111111'', title = ''X'', author = ''Y'', publisher = ''Z'',
     publication_year = 2020, total_copies = 2, available_copies = 1\<rparr>"
  have mem: "members ex_holding ''M1'' = Some ?mem"
    by (simp add: ex_defs lib_defs)
  have bk: "books ex_holding ''1111111111'' = Some ?bk"
    by (simp add: ex_defs lib_defs)
  have held: "''1111111111'' \<in> set (borrowed_books ?mem)"
    by simp
  have fine: "calculate_fine (database ex_holding) ''M1'' ''1111111111''
                1425600000000 1425600000000 = Fin 2"
    by (simp add: ex_defs lib_defs)
  from return_failure_keeps_mutations [OF mem bk held, of 1425600000000 1425600000000 1425600]
    mem bk fine
  show ?thesis by (simp add: return_copy_def float_simps)
qed

lemma count_list_distinct:
  "distinct xs \<Longrightarrow> x \<in> set xs \<Longrightarrow> count_list xs x = 1"
  by (induction xs) (auto simp: count_list_0_iff)

text \<open>
  C10. \<open>borrow_book\<close> does not look at \<open>borrowed_books\<close> before it lends: an active
  member who holds the isbn borrows it again whenever a copy is available and the store
  accepts the write. The book loses one more available copy, the store gains one more
  open record for the pair, and \<open>borrowed_books\<close> is as before, with the isbn once.
\<close>

theorem double_borrow:
  assumes mem: "members l m = Some mem" and act: "is_active mem"
    and held: "i \<in> set (borrowed_books mem)" and dist: "distinct (borrowed_books mem)"
    and bk: "books l i = Some bk" and avail: "0 < available_copies bk"
  shows "fst (borrow_book l m i now ts True)
           = (True, Borrowed (title bk) (now + timedelta_days BORROWING_PERIOD_DAYS))
       \<and> map_option available_copies (books (snd (borrow_book l m i now ts True)) i)
           = Some (available_copies bk - 1)
       \<and> borrowing_records (database (snd (borrow_book l m i now ts True)))
           = borrowing_records (database l) @
             [\<lparr>record_id = int (length (borrowing_records (database l))) + 1,
               rec_member_id = m, rec_isbn = i, borrow_date = ts,
               due_date = now + timedelta_days BORROWING_PERIOD_DAYS,
               return_date = None, fine_paid = Fin 0\<rparr>]
       \<and> length (open_records (database (snd (borrow_book l m i now ts True))) m i)
           = length (open_records (database l) m i) + 1
       \<and> map_option borrowed_books (members (snd (borrow_book l m i now ts True)) m)
           = Some (borrowed_books mem)
       \<and> map_option (\<lambda>mem'. count_list (borrowed_books mem') i)
            (members (snd (borrow_book l m i now ts True)) m) = Some 1"
  using held avail act count_list_distinct [OF dist held]
  by (simp add: borrow_book_def mem bk borrow_copy_def add_borrowed_book_def
        record_borrowing_def Let_def open_records_def is_open_for_def)

theorem double_borrow_witness:
  "map_option borrowed_books (members ex_holding ''M1'') = Some [''1111111111'']
   \<and> length (open_records (database ex_holding) ''M1'' ''1111111111'') = 1
   \<and> fst (fst (borrow_book ex_holding ''M1'' ''1111111111'' 1000000 1 True))
   \<and> length (open_records
        (database (snd (borrow_book ex_holding ''M1'' ''1111111111'' 1000000 1 True)))
        ''M1'' ''1111111111'') = 2
   \<and> map_option available_copies
        (books (snd (borrow_book ex_holding ''M1'' ''1111111111'' 1000000 1 True))
           ''1111111111'') = Some 0
   \<and> map_option borrowed_books
        (members (snd (borrow_book ex_holding ''M1'' ''1111111111'' 1000000 1 True)) ''M1'')
        = Some [''1111111111'']"
proof -
  let ?mem = "\<lparr>member_id = ''M1'', name = ''Ann'', email = ''ann@example.org'',
     phone = ''555'', address = ''1 Main St'', is_active = True,
     borrowed_books = [''1111111111''], total_fines = Fin 0\<rparr>"
  let ?bk = "\<lparr>isbn = ''1111111111'', title = ''X'', author = ''Y'', publisher = ''Z'',
     publication_year = 2020, total_copies = 2, available_copies = 1\<rparr>"
  have mem: "members ex_holding ''M1'' = Some ?mem"
    by (simp add: ex_defs lib_defs)
  have bk: "books ex_holding ''1111111111'' = Some ?bk"
    by (simp add: ex_defs lib_defs)
  have n: "length (open_records (database ex_holding) ''M1'' ''1111111111'') = 1"
    by (simp add: ex_defs lib_defs)
  have "is_active ?mem" "''1111111111'' \<in> set (borrowed_books ?mem)"
    "distinct (borrowed_books ?mem)" "0 < available_copies ?bk"
    by simp_all
  from double_borrow [OF mem this(1-3) bk this(4), of 1000000 1] mem n
  show ?thesis by simp
qed

text \<open>
  When the store refuses the record of a loan, \<open>borrow_book\<close> takes back what it did
  in memory. For a member who did not hold the isbn, and a book with no more available
  copies than copies, that restores the library:
\<close>

lemma borrow_failure_rolls_back:
  assumes mem: "members l m = Some mem" and act: "is_active mem"
    and bk: "books l i = Some bk" and avail: "0 < available_copies bk"
    and wf: "available_copies bk \<le> total_copies bk"
    and free: "i \<notin> set (borrowed_books mem)"
  shows "borrow_book l m i now ts False = ((False, Msg ''Failed to record borrowing''), l)"
proof -
  have b: "(books l)(i \<mapsto> bk) = books l" using bk by (rule map_upd_triv)
  have m: "(members l)(m \<mapsto> mem) = members l" using mem by (rule map_upd_triv)
  show ?thesis
    using act avail wf free
    by (simp add: borrow_book_def mem bk borrow_copy_def add_borrowed_book_def
        record_borrowing_def Let_def return_copy_def remove_borrowed_book_def
        remove1_append b m)
qed

text \<open>
  C1. The rollback of \<open>borrow_book\<close> ("Revert changes if database operation failed")
  does not restore \<open>borrowed_books\<close> for a member who holds the isbn already:
  \<open>add_borrowed_book\<close> added nothing, and \<open>remove_borrowed_book\<close> removes the entry
  of the earlier loan. In \<open>ex_holding\<close> the member holds the book and its loan is open
  in the store; after a second \<open>borrow_book\<close> that the store refuses, the answer is
  "Failed to record borrowing", \<open>borrowed_books\<close> is empty and the loan is still open.
\<close>

theorem rollback_drops_held_book:
  "map_option borrowed_books (members ex_holding ''M1'') = Some [''1111111111'']
   \<and> fst (borrow_book ex_holding ''M1'' ''1111111111'' 1000000 1 False)
        = (False, Msg ''Failed to record borrowing'')
   \<and> map_option borrowed_books
        (members (snd (borrow_book ex_holding ''M1'' ''1111111111'' 1000000 1 False)) ''M1'')
        = Some []
   \<and> length (open_records
        (database (snd (borrow_book ex_holding ''M1'' ''1111111111'' 1000000 1 False)))
        ''M1'' ''1111111111'') = 1"
  by (simp add: ex_defs lib_defs)

section \<open>The fine\<close>

lemma most_recent_None: "most_recent rs = None \<longleftrightarrow> rs = []"
  by (induction rs) (auto split: option.splits)

lemma most_recent_max:
  "most_recent rs = Some r \<Longrightarrow> r \<in> set rs \<and> (\<forall>r' \<in> set rs. borrow_date r' \<le> borrow_date r)"
proof (induction rs arbitrary: r)
  case Nil
  then show ?case by simp
next
  case (Cons a rs)
  show ?case
  proof (cases "most_recent rs")
    case None
    then have "rs = []" by (simp add: most_recent_None)
    with Cons.prems show ?thesis by simp
  next
    case (Some b)
    from Cons.IH [OF Some] have b: "b \<in> set rs" "\<forall>r' \<in> set rs. borrow_date r' \<le> borrow_date b"
      by simp_all
    show ?thesis
    proof (cases "borrow_date a < borrow_date b")
      case True
      with Some Cons.prems have "r = b" by simp
      with b True show ?thesis by auto
    next
      case False
      with Some Cons.prems have "r = a" by simp
      with b False show ?thesis by fastforce
    qed
  qed
qed

lemma days_truncated: "0 \<le> delta \<Longrightarrow> days delta = truncated_days delta"
  by (cases "delta = 0") (simp_all add: days_def truncated_days_def)

lemma set_open_records:
  "set (open_records db m i)
     = {r \<in> set (borrowing_records db).
          rec_member_id r = m \<and> rec_isbn r = i \<and> return_date r = None}"
  by (auto simp: open_records_def is_open_for_def)

text \<open>
  C4. The fine of a pair is 0 when no record of the store has the member, the isbn and a
  null \<open>return_date\<close>. Otherwise it is computed from such a record, one with the latest
  \<open>borrow_date\<close> among them: when the clock is past its due date, the whole days
  between the due date and the clock, fractions of a day cut off, times the daily rate of
  1.0, which is that number of days as a float when it is below \<open>2^53\<close>; and 0 when the
  clock is not past the due date. The code reads the clock twice; the second reading is
  not before the first.
\<close>

theorem calculate_fine_spec:
  assumes clock: "now1 \<le> now2"
  shows "((\<forall>r \<in> set (borrowing_records db).
             \<not> (rec_member_id r = m \<and> rec_isbn r = i \<and> return_date r = None))
          \<longrightarrow> calculate_fine db m i now1 now2 = Fin 0)
       \<and> ((\<exists>r \<in> set (borrowing_records db).
              rec_member_id r = m \<and> rec_isbn r = i \<and> return_date r = None)
          \<longrightarrow> (\<exists>r \<in> set (borrowing_records db).
                 rec_member_id r = m \<and> rec_isbn r = i \<and> return_date r = None
               \<and> (\<forall>r' \<in> set (borrowing_records db).
                      rec_member_id r' = m \<and> rec_isbn r' = i \<and> return_date r' = None
                      \<longrightarrow> borrow_date r' \<le> borrow_date r)
               \<and> calculate_fine db m i now1 now2
                   = (if due_date r < now1
                      then fmul (float_of_int (truncated_days (now2 - due_date r))) DAILY_FINE
                      else Fin 0)
               \<and> (due_date r < now1 \<and> truncated_days (now2 - due_date r) < 2 ^ 53
                    \<longrightarrow> calculate_fine db m i now1 now2
                         = Fin (of_int (truncated_days (now2 - due_date r))))))
       \<and> DAILY_FINE = Fin 1"
proof -
  have none: "calculate_fine db m i now1 now2 = Fin 0"
    if "\<forall>r \<in> set (borrowing_records db).
             \<not> (rec_member_id r = m \<and> rec_isbn r = i \<and> return_date r = None)"
  proof -
    from that have "set (open_records db m i) = {}"
      unfolding set_open_records by blast
    then show ?thesis
      by (simp add: calculate_fine_def fetch_open_record_def)
  qed
  have some: "\<exists>r \<in> set (borrowing_records db).
                 rec_member_id r = m \<and> rec_isbn r = i \<and> return_date r = None
               \<and> (\<forall>r' \<in> set (borrowing_records db).
                      rec_member_id r' = m \<and> rec_isbn r' = i \<and> return_date r' = None
                      \<longrightarrow> borrow_date r' \<le> borrow_date r)
               \<and> calculate_fine db m i now1 now2
                   = (if due_date r < now1
                      then fmul (float_of_int (truncated_days (now2 - due_date r))) DAILY_FINE
                      else Fin 0)
               \<and> (due_date r < now1 \<and> truncated_days (now2 - due_date r) < 2 ^ 53
                    \<longrightarrow> calculate_fine db m i now1 now2
                         = Fin (of_int (truncated_days (now2 - due_date r))))"
    if ex: "\<exists>r \<in> set (borrowing_records db).
              rec_member_id r = m \<and> rec_isbn r = i \<and> return_date r = None"
  proof -
    from ex have "set (open_records db m i) \<noteq> {}"
      unfolding set_open_records by blast
    then have "open_records db m i \<noteq> []" by auto
    then obtain r where r: "most_recent (open_records db m i) = Some r"
      using most_recent_None [of "open_records db m i"] by auto
    from most_recent_max [OF r]
    have sel: "r \<in> set (borrowing_records db)"
      "rec_member_id r = m \<and> rec_isbn r = i \<and> return_date r = None"
      and mx: "\<forall>r' \<in> set (borrowing_records db).
                 rec_member_id r' = m \<and> rec_isbn r' = i \<and> return_date r' = None
                 \<longrightarrow> borrow_date r' \<le> borrow_date r"
      unfolding set_open_records by blast+
    let ?d = "truncated_days (now2 - due_date r)"
    have fine: "calculate_fine db m i now1 now2
                   = (if due_date r < now1 then fmul (float_of_int ?d) DAILY_FINE else Fin 0)"
    proof (cases "due_date r < now1")
      case True
      with clock have "0 \<le> now2 - due_date r" by simp
      then have "days (now2 - due_date r) = ?d"
        by (rule days_truncated)
      with True r show ?thesis
        by (simp add: calculate_fine_def fetch_open_record_def)
    next
      case False
      with r show ?thesis
        by (simp add: calculate_fine_def fetch_open_record_def)
    qed
    have exact: "calculate_fine db m i now1 now2 = Fin (of_int ?d)"
      if late: "due_date r < now1 \<and> ?d < 2 ^ 53"
    proof -
      from late clock have "0 \<le> now2 - due_date r" by simp
      then have "0 \<le> ?d"
        by (simp add: truncated_days_def sgn_if pos_imp_zdiv_nonneg_iff)
      with late have "\<bar>?d\<bar> < 2 ^ 53" by simp
      then have "fmul (float_of_int ?d) DAILY_FINE = Fin (of_int ?d)"
        by (rule daily_fine_exact)
      with late fine show ?thesis by simp
    qed
    from sel mx fine exact show ?thesis by blast
  qed
  have rate: "DAILY_FINE = Fin 1" by (simp add: DAILY_FINE_def)
  from none some rate show ?thesis by blast
qed

theorem calculate_fine_spec_witness:
  "(1425600000000::int) \<le> 1425600000001
   \<and> borrowing_records (database ex_library) = []
   \<and> calculate_fine (database ex_library) ''M1'' ''1111111111'' 1425600000000 1425600000001 = Fin 0
   \<and> map borrow_date (borrowing_records (database ex_twice)) = [0, 1]
   \<and> map due_date (borrowing_records (database ex_twice)) = [1209600000000, 1209601000000]
   \<and> truncated_days (1425600000001 - 1209601000000) = 2
   \<and> calculate_fine (database ex_twice) ''M1'' ''1111111111'' 1425600000000 1425600000001 = Fin 2
   \<and> calculate_fine (database ex_twice) ''M1'' ''1111111111'' 1209601000000 1209601000000 = Fin 0"
proof -
  let ?r1 = "\<lparr>record_id = 1, rec_member_id = ''M1'', rec_isbn = ''1111111111'', borrow_date = 0,
      due_date = 1209600000000, return_date = None, fine_paid = Fin 0\<rparr>"
  let ?r2 = "\<lparr>record_id = 2, rec_member_id = ''M1'', rec_isbn = ''1111111111'', borrow_date = 1,
      due_date = 1209601000000, return_date = None, fine_paid = Fin 0\<rparr>"
  have c: "(1425600000000::int) \<le> 1425600000001" by simp
  have e: "borrowing_records (database ex_library) = []"
    by (simp add: ex_defs lib_defs)
  have o: "borrowing_records (database ex_twice) = [?r1, ?r2]"
    by (simp add: ex_defs lib_defs)
  have t: "truncated_days (1425600000001 - 1209601000000) = 2"
    by (simp add: truncated_days_def)
  from calculate_fine_spec [OF c, of "database ex_library" "''M1''" "''1111111111''"] e
  have z: "calculate_fine (database ex_library) ''M1'' ''1111111111'' 1425600000000 1425600000001 = Fin 0"
    by simp
  from calculate_fine_spec [OF c, of "database ex_twice" "''M1''" "''1111111111''"]
  have two: "calculate_fine (database ex_twice) ''M1'' ''1111111111'' 1425600000000 1425600000001 = Fin 2"
    unfolding o using t by auto
  from calculate_fine_spec [of 1209601000000 1209601000000 "database ex_twice" "''M1''" "''1111111111''"]
  have zero: "calculate_fine (database ex_twice) ''M1'' ''1111111111'' 1209601000000 1209601000000 = Fin 0"
    unfolding o by auto
  from c e z o t two zero show ?thesis by simp
qed

section \<open>What a return writes\<close>

lemma return_book_held:
  assumes mem: "members l m = Some mem" and bk: "books l i = Some bk"
    and held: "i \<in> set (borrowed_books mem)"
  shows "return_book l m i now1 now2 ts ok =
     ((ok, if ok then Returned (title bk)
                       (if flt (Fin 0) (calculate_fine (database l) m i now1 now2)
                        then Some (calculate_fine (database l) m i now1 now2) else None)
           else Msg ''Failed to record return''),
      l\<lparr>database := snd (record_return (database l) m i
                           (calculate_fine (database l) m i now1 now2) ts ok),
        books := (books l)(i \<mapsto> snd (return_copy bk)),
        members := (members l)(m \<mapsto>
          (if flt (Fin 0) (calculate_fine (database l) m i now1 now2)
           then add_fine (mem\<lparr>borrowed_books := remove1 i (borrowed_books mem)\<rparr>)
                  (calculate_fine (database l) m i now1 now2)
           else mem\<lparr>borrowed_books := remove1 i (borrowed_books mem)\<rparr>))\<rparr>)"
  using held
  by (simp add: return_book_def mem bk remove_borrowed_book_def record_return_def Let_def
        return_copy_def)

lemma return_book_not_held:
  assumes mem: "members l m = Some mem" and nheld: "i \<notin> set (borrowed_books mem)"
  shows "snd (return_book l m i now1 now2 ts ok) = l"
proof -
  have m: "(members l)(m \<mapsto> mem) = members l" using mem by (rule map_upd_triv)
  show ?thesis
    using nheld
    by (cases "books l i") (simp_all add: return_book_def mem remove_borrowed_book_def m)
qed

lemma return_book_no_member:
  "members l m = None \<Longrightarrow> snd (return_book l m i now1 now2 ts ok) = l"
  by (simp add: return_book_def)

lemma return_book_no_book:
  "books l i = None \<Longrightarrow> snd (return_book l m i now1 now2 ts ok) = l"
  by (cases "members l m") (simp_all add: return_book_def)

lemma return_book_success:
  assumes "fst (fst (return_book l m i now1 now2 ts ok))"
  shows "ok \<and> (\<exists>mem bk. members l m = Some mem \<and> books l i = Some bk
                \<and> i \<in> set (borrowed_books mem))"
proof (cases "members l m")
  case None
  with assms show ?thesis by (simp add: return_book_def)
next
  case (Some mem)
  note mem = this
  show ?thesis
  proof (cases "books l i")
    case None
    with assms mem show ?thesis by (simp add: return_book_def)
  next
    case (Some bk)
    show ?thesis
    proof (cases "i \<in> set (borrowed_books mem)")
      case True
      with assms mem Some show ?thesis
        by (simp add: return_book_held)
    next
      case False
      with assms mem Some show ?thesis
        by (simp add: return_book_def remove_borrowed_book_def)
    qed
  qed
qed

text \<open>
  C6. A successful \<open>return_book\<close> sets \<open>return_date\<close> and \<open>fine_paid\<close> on every
  open record of the pair, the \<open>UPDATE\<close> of \<open>record_return\<close> having neither order nor
  limit, and leaves every other record as it is. A pair with one open record has that
  record as its most recent open one, the only record that changes.
\<close>

theorem return_closes_open_records:
  assumes ok: "fst (fst (return_book l m i now1 now2 ts ok))"
  shows "borrowing_records (database (snd (return_book l m i now1 now2 ts ok)))
           = map (\<lambda>r. if is_open_for m i r
                       then r\<lparr>return_date := Some ts,
                              fine_paid := calculate_fine (database l) m i now1 now2\<rparr>
                       else r)
                 (borrowing_records (database l))
       \<and> (\<forall>r. open_records (database l) m i = [r] \<longrightarrow>
              fetch_open_record (database l) m i = Some r)"
proof -
  from return_book_success [OF ok] obtain mem bk where
    h: "ok" "members l m = Some mem" "books l i = Some bk" "i \<in> set (borrowed_books mem)"
    by blast
  have "borrowing_records (database (snd (return_book l m i now1 now2 ts ok)))
           = map (\<lambda>r. if is_open_for m i r
                       then r\<lparr>return_date := Some ts,
                              fine_paid := calculate_fine (database l) m i now1 now2\<rparr>
                       else r)
                 (borrowing_records (database l))"
    using h(1) by (simp add: return_book_held [OF h(2,3,4)] record_return_def)
  then show ?thesis
    by (simp add: fetch_open_record_def)
qed

theorem return_closes_open_records_witness:
  "fst (fst (return_book ex_holding ''M1'' ''1111111111'' 1425600000000 1425600000000 1425600 True))
   \<and> map (\<lambda>r. (record_id r, return_date r, fine_paid r)) (borrowing_records (database ex_holding))
       = [(1, None, Fin 0)]
   \<and> map (\<lambda>r. (record_id r, return_date r, fine_paid r))
       (borrowing_records (database (snd
          (return_book ex_holding ''M1'' ''1111111111'' 1425600000000 1425600000000 1425600 True))))
       = [(1, Some 1425600, Fin 2)]"
proof -
  have s: "fst (fst (return_book ex_holding ''M1'' ''1111111111''
                       1425600000000 1425600000000 1425600 True))"
    by (simp add: ex_defs lib_defs)
  have r: "borrowing_records (database ex_holding)
       = [\<lparr>record_id = 1, rec_member_id = ''M1'', rec_isbn = ''1111111111'', borrow_date = 0,
           due_date = 1209600000000, return_date = None, fine_paid = Fin 0\<rparr>]"
    by (simp add: ex_defs lib_defs)
  have fine: "calculate_fine (database ex_holding) ''M1'' ''1111111111''
                1425600000000 1425600000000 = Fin 2"
    by (simp add: ex_defs lib_defs)
  from return_closes_open_records [OF s] r fine s
  show ?thesis by (simp add: is_open_for_def)
qed


text \<open>
  That only the most recent open record changes, as the specification has it, fails in
  \<open>ex_twice\<close>, where the member has borrowed the book twice: record 2 is the most recent
  open record of the pair, and the return closes record 1 as well.
\<close>

theorem return_closes_older_record:
  "fst (fst (return_book ex_twice ''M1'' ''1111111111'' 2000000 2000000 2 True))
   \<and> map record_id (open_records (database ex_twice) ''M1'' ''1111111111'') = [1, 2]
   \<and> map_option record_id (fetch_open_record (database ex_twice) ''M1'' ''1111111111'') = Some 2
   \<and> map return_date (borrowing_records (database ex_twice)) = [None, None]
   \<and> map record_id
        (borrowing_records
           (database (snd (return_book ex_twice ''M1'' ''1111111111'' 2000000 2000000 2 True))))
        = [1, 2]
   \<and> map return_date
        (borrowing_records
           (database (snd (return_book ex_twice ''M1'' ''1111111111'' 2000000 2000000 2 True))))
        = [Some 2, Some 2]"
  by (simp add: ex_defs lib_defs)

section \<open>A loan in memory and in the store\<close>

lemma borrow_book_ok:
  assumes mem: "members l m = Some mem" and act: "is_active mem"
    and bk: "books l i = Some bk" and avail: "0 < available_copies bk"
  shows "borrow_book l m i now ts True =
     ((True, Borrowed (title bk) (now + timedelta_days BORROWING_PERIOD_DAYS)),
      l\<lparr>database := (database l)\<lparr>borrowing_records := borrowing_records (database l) @
              [\<lparr>record_id = int (length (borrowing_records (database l))) + 1,
                rec_member_id = m, rec_isbn = i, borrow_date = ts,
                due_date = now + timedelta_days BORROWING_PERIOD_DAYS,
                return_date = None, fine_paid = Fin 0\<rparr>]\<rparr>,
        books := (books l)(i \<mapsto> bk\<lparr>available_copies := available_copies bk - 1\<rparr>),
        members := (members l)(m \<mapsto> add_borrowed_book mem i)\<rparr>)"
  using act avail
  by (simp add: borrow_book_def mem bk borrow_copy_def record_borrowing_def Let_def)



section \<open>Open records per member and book\<close>

lemma open_records_same:
  "borrowing_records db' = borrowing_records db \<Longrightarrow> open_records db' m i = open_records db m i"
  by (simp add: open_records_def)

lemma add_book_keeps:
  "borrowing_records (database (snd (add_book l i t a p y n))) = borrowing_records (database l)
   \<and> members (snd (add_book l i t a p y n)) = members l"
  by (simp add: add_book_def db_add_book_def)

lemma add_member_keeps:
  "borrowing_records (database (snd (add_member l m n e p a))) = borrowing_records (database l)
   \<and> (members (snd (add_member l m n e p a)) = members l
      \<or> (members l m = None
         \<and> members (snd (add_member l m n e p a)) = (members l)(m \<mapsto> Member m n e p a)))"
  by (auto simp: add_member_def db_add_member_def)

lemma borrow_book_effect:
  assumes free: "\<not> holds l m i"
  shows "(borrowing_records (database (snd (borrow_book l m i now ts ok)))
            = borrowing_records (database l)
          \<and> members (snd (borrow_book l m i now ts ok)) = members l)
       \<or> (\<exists>mem k due. members l m = Some mem
            \<and> members (snd (borrow_book l m i now ts ok))
                = (members l)(m \<mapsto> add_borrowed_book mem i)
            \<and> borrowing_records (database (snd (borrow_book l m i now ts ok)))
                = borrowing_records (database l) @
                  [\<lparr>record_id = k, rec_member_id = m, rec_isbn = i, borrow_date = ts,
                    due_date = due, return_date = None, fine_paid = Fin 0\<rparr>])"
proof (cases "members l m")
  case None
  then show ?thesis by (simp add: borrow_book_def)
next
  case (Some mem)
  note mem = this
  have nh: "i \<notin> set (borrowed_books mem)" using free mem by (simp add: holds_def)
  have mm: "(members l)(m \<mapsto> mem) = members l" using mem by (rule map_upd_triv)
  show ?thesis
  proof (cases "books l i")
    case None
    with mem show ?thesis by (simp add: borrow_book_def)
  next
    case (Some bk)
    note bk = this
    show ?thesis
    proof (cases "is_active mem \<and> 0 < available_copies bk")
      case False
      then show ?thesis
        by (auto simp: borrow_book_def mem bk borrow_copy_def)
    next
      case True
      show ?thesis
      proof (cases ok)
        case True
        with \<open>is_active mem \<and> 0 < available_copies bk\<close> show ?thesis
          by (simp add: borrow_book_ok [OF mem _ bk] mem)
      next
        case False
        with \<open>is_active mem \<and> 0 < available_copies bk\<close> nh show ?thesis
          by (simp add: borrow_book_def mem bk borrow_copy_def record_borrowing_def Let_def
              add_borrowed_book_def remove_borrowed_book_def remove1_append mm)
      qed
    qed
  qed
qed

lemma closed_record_open:
  "is_open_for m' i' (if is_open_for m i r then r\<lparr>return_date := Some ts, fine_paid := f\<rparr> else r)
   \<longleftrightarrow> is_open_for m' i' r \<and> \<not> is_open_for m i r"
  by (cases "is_open_for m i r") (auto simp: is_open_for_def)

lemma closed_records_same:
  "filter (is_open_for m i)
     (map (\<lambda>r. if is_open_for m i r then r\<lparr>return_date := Some ts, fine_paid := f\<rparr> else r) rs)
   = []"
  by (induction rs) (simp_all only: list.map filter.simps closed_record_open, simp_all)

lemma closed_records_other:
  assumes "m' \<noteq> m \<or> i' \<noteq> i"
  shows "filter (is_open_for m' i')
     (map (\<lambda>r. if is_open_for m i r then r\<lparr>return_date := Some ts, fine_paid := f\<rparr> else r) rs)
   = filter (is_open_for m' i') rs"
proof (induction rs)
  case Nil
  then show ?case by simp
next
  case (Cons r rs)
  let ?c = "\<lambda>r. if is_open_for m i r then r\<lparr>return_date := Some ts, fine_paid := f\<rparr> else r"
  have other: "\<not> is_open_for m i r" if "is_open_for m' i' r"
    using that assms by (auto simp: is_open_for_def)
  show ?case
  proof (cases "is_open_for m' i' r")
    case True
    then have "?c r = r" using other by simp
    with True Cons.IH show ?thesis by simp
  next
    case False
    then have "\<not> is_open_for m' i' (?c r)"
      by (simp only: closed_record_open) simp
    with False Cons.IH show ?thesis by simp
  qed
qed

lemma consistentI:
  assumes "\<And>m i. holds l m i \<Longrightarrow> length (open_records (database l) m i) \<le> 1"
    and "\<And>m i. \<not> holds l m i \<Longrightarrow> open_records (database l) m i = []"
  shows "loans_consistent l"
  using assms by (simp add: loans_consistent_def)

lemma consistent_held:
  "loans_consistent l \<Longrightarrow> length (open_records (database l) m i) \<le> 1"
  unfolding loans_consistent_def
proof -
  assume a: "\<forall>m i. length (open_records (database l) m i) \<le> (if holds l m i then 1 else 0)"
  have "length (open_records (database l) m i) \<le> (if holds l m i then 1 else 0)"
    using a by blast
  also have "\<dots> \<le> 1" by simp
  finally show ?thesis .
qed

lemma consistent_free:
  "loans_consistent l \<Longrightarrow> \<not> holds l m i \<Longrightarrow> open_records (database l) m i = []"
  unfolding loans_consistent_def
proof -
  assume a: "\<forall>m i. length (open_records (database l) m i) \<le> (if holds l m i then 1 else 0)"
    and f: "\<not> holds l m i"
  have "length (open_records (database l) m i) \<le> (if holds l m i then 1 else 0)"
    using a by blast
  with f show ?thesis by simp
qed

lemma consistent_same:
  assumes inv: "loans_consistent l"
    and r: "\<And>m i. open_records (database l') m i = open_records (database l) m i"
    and h: "\<And>m i. holds l m i \<Longrightarrow> holds l' m i"
  shows "loans_consistent l'"
proof (rule consistentI)
  fix m i
  show "length (open_records (database l') m i) \<le> 1"
    unfolding r using inv by (rule consistent_held)
next
  fix m i
  assume "\<not> holds l' m i"
  then have "\<not> holds l m i" using h by blast
  with inv show "open_records (database l') m i = []"
    unfolding r by (rule consistent_free)
qed

lemma add_book_consistent:
  assumes inv: "loans_consistent l"
  shows "loans_consistent (snd (add_book l i t a p y n))"
proof (rule consistent_same [OF inv])
  fix m' i'
  show "open_records (database (snd (add_book l i t a p y n))) m' i'
          = open_records (database l) m' i'"
    using add_book_keeps [of l i t a p y n] by (simp add: open_records_def)
next
  fix m' i'
  assume "holds l m' i'"
  then show "holds (snd (add_book l i t a p y n)) m' i'"
    using add_book_keeps [of l i t a p y n] by (simp add: holds_def)
qed

lemma add_member_consistent:
  assumes inv: "loans_consistent l"
  shows "loans_consistent (snd (add_member l m n e p a))"
proof (rule consistent_same [OF inv])
  fix m' i'
  show "open_records (database (snd (add_member l m n e p a))) m' i'
          = open_records (database l) m' i'"
    using add_member_keeps [of l m n e p a] by (simp add: open_records_def)
next
  fix m' i'
  assume hd: "holds l m' i'"
  then obtain mem where mem: "members l m' = Some mem" "i' \<in> set (borrowed_books mem)"
    by (auto simp: holds_def split: option.splits)
  from add_member_keeps [of l m n e p a]
  have "members (snd (add_member l m n e p a)) = members l
      \<or> (members l m = None
         \<and> members (snd (add_member l m n e p a)) = (members l)(m \<mapsto> Member m n e p a))"
    by blast
  then show "holds (snd (add_member l m n e p a)) m' i'"
  proof
    assume "members (snd (add_member l m n e p a)) = members l"
    with hd show ?thesis by (simp add: holds_def)
  next
    assume new: "members l m = None
         \<and> members (snd (add_member l m n e p a)) = (members l)(m \<mapsto> Member m n e p a)"
    with mem have "m' \<noteq> m" by auto
    with new mem show ?thesis by (simp add: holds_def)
  qed
qed

lemma borrow_book_consistent:
  assumes inv: "loans_consistent l" and free: "\<not> holds l m i"
  shows "loans_consistent (snd (borrow_book l m i now ts ok))"
proof -
  let ?l' = "snd (borrow_book l m i now ts ok)"
  from borrow_book_effect [OF free, of now ts ok]
  show ?thesis
  proof
    assume same: "borrowing_records (database ?l') = borrowing_records (database l)
            \<and> members ?l' = members l"
    show ?thesis
    proof (rule consistent_same [OF inv])
      fix m' i'
      show "open_records (database ?l') m' i' = open_records (database l) m' i'"
        using same by (simp add: open_records_def)
    next
      fix m' i'
      assume "holds l m' i'"
      then show "holds ?l' m' i'" using same by (simp add: holds_def)
    qed
  next
    assume "\<exists>mem k due. members l m = Some mem
            \<and> members ?l' = (members l)(m \<mapsto> add_borrowed_book mem i)
            \<and> borrowing_records (database ?l')
                = borrowing_records (database l) @
                  [\<lparr>record_id = k, rec_member_id = m, rec_isbn = i, borrow_date = ts,
                    due_date = due, return_date = None, fine_paid = Fin 0\<rparr>]"
    then obtain mem k due where mem: "members l m = Some mem"
      and ms: "members ?l' = (members l)(m \<mapsto> add_borrowed_book mem i)"
      and rs: "borrowing_records (database ?l') = borrowing_records (database l) @
                  [\<lparr>record_id = k, rec_member_id = m, rec_isbn = i, borrow_date = ts,
                    due_date = due, return_date = None, fine_paid = Fin 0\<rparr>]"
      by blast
    let ?new = "\<lparr>record_id = k, rec_member_id = m, rec_isbn = i, borrow_date = ts,
                    due_date = due, return_date = None, fine_paid = Fin 0\<rparr>"
    have hm: "holds ?l' m i"
      by (simp add: holds_def ms add_borrowed_book_def)
    have ho: "holds ?l' m' i' = holds l m' i'" if "m' \<noteq> m \<or> i' \<noteq> i" for m' i'
      using that mem by (auto simp: holds_def ms add_borrowed_book_def)
    have rm: "open_records (database ?l') m i = open_records (database l) m i @ [?new]"
      by (simp add: open_records_def rs is_open_for_def)
    have ro: "open_records (database ?l') m' i' = open_records (database l) m' i'"
      if "m' \<noteq> m \<or> i' \<noteq> i" for m' i'
      using that by (auto simp: open_records_def rs is_open_for_def)
    have e: "open_records (database l) m i = []"
      using inv free by (rule consistent_free)
    show ?thesis
    proof (rule consistentI)
      fix m' i'
      show "length (open_records (database ?l') m' i') \<le> 1"
      proof (cases "m' \<noteq> m \<or> i' \<noteq> i")
        case True
        show ?thesis unfolding ro [OF True] using inv by (rule consistent_held)
      next
        case False
        then have "m' = m" "i' = i" by simp_all
        then show ?thesis by (simp add: rm e)
      qed
    next
      fix m' i'
      assume nh: "\<not> holds ?l' m' i'"
      with hm have d: "m' \<noteq> m \<or> i' \<noteq> i" by blast
      from nh have "\<not> holds l m' i'" unfolding ho [OF d] .
      with inv show "open_records (database ?l') m' i' = []"
        unfolding ro [OF d] by (rule consistent_free)
    qed
  qed
qed

lemma return_book_consistent:
  assumes inv: "loans_consistent l"
  shows "loans_consistent (snd (return_book l m i now1 now2 ts True))"
proof (cases "members l m")
  case None
  with inv show ?thesis by (simp add: return_book_no_member)
next
  case (Some mem)
  note mem = this
  show ?thesis
  proof (cases "books l i")
    case None
    with inv show ?thesis by (simp add: return_book_no_book)
  next
    case (Some bk)
    note bk = this
    show ?thesis
    proof (cases "i \<in> set (borrowed_books mem)")
      case False
      with inv mem show ?thesis by (simp add: return_book_not_held)
    next
      case True
      let ?l' = "snd (return_book l m i now1 now2 ts True)"
      let ?f = "calculate_fine (database l) m i now1 now2"
      let ?mem0 = "mem\<lparr>borrowed_books := remove1 i (borrowed_books mem)\<rparr>"
      let ?mem' = "if flt (Fin 0) ?f then add_fine ?mem0 ?f else ?mem0"
      note r = return_book_held [OF mem bk True, of now1 now2 ts True]
      have ms: "members ?l' = (members l)(m \<mapsto> ?mem')"
        by (simp only: r snd_conv) simp
      have bs: "borrowed_books ?mem' = remove1 i (borrowed_books mem)"
        by (simp add: add_fine_def)
      have rs: "borrowing_records (database ?l')
            = map (\<lambda>r. if is_open_for m i r then r\<lparr>return_date := Some ts, fine_paid := ?f\<rparr>
                        else r) (borrowing_records (database l))"
        by (simp only: r snd_conv) (simp add: record_return_def)
      have rm: "open_records (database ?l') m i = []"
        unfolding open_records_def rs by (rule closed_records_same)
      have ro: "open_records (database ?l') m' i' = open_records (database l) m' i'"
        if "m' \<noteq> m \<or> i' \<noteq> i" for m' i'
        unfolding open_records_def rs using that by (rule closed_records_other)
      have ho: "holds ?l' m' i' = holds l m' i'" if d: "m' \<noteq> m \<or> i' \<noteq> i" for m' i'
      proof (cases "m' = m")
        case False
        then show ?thesis unfolding holds_def ms by simp
      next
        case same: True
        with d have "i' \<noteq> i" by simp
        then have "i' \<in> set (remove1 i (borrowed_books mem)) \<longleftrightarrow> i' \<in> set (borrowed_books mem)"
          by simp
        then show ?thesis unfolding holds_def ms same using mem bs by simp
      qed
      show ?thesis
      proof (rule consistentI)
        fix m' i'
        show "length (open_records (database ?l') m' i') \<le> 1"
        proof (cases "m' \<noteq> m \<or> i' \<noteq> i")
          case True
          show ?thesis unfolding ro [OF True] using inv by (rule consistent_held)
        next
          case False
          then have "m' = m" "i' = i" by simp_all
          then show ?thesis by (simp only: rm) simp
        qed
      next
        fix m' i'
        assume nh: "\<not> holds ?l' m' i'"
        show "open_records (database ?l') m' i' = []"
        proof (cases "m' \<noteq> m \<or> i' \<noteq> i")
          case True
          from nh have "\<not> holds l m' i'" unfolding ho [OF True] .
          with inv show ?thesis unfolding ro [OF True] by (rule consistent_free)
        next
          case False
          then have "m' = m" "i' = i" by simp_all
          then show ?thesis by (simp only: rm)
        qed
      qed
    qed
  qed
qed

lemma step_consistent:
  assumes inv: "loans_consistent l" and al: "allowed l c"
  shows "loans_consistent (step l c)"
proof (cases c)
  case (AddBook i t a p y n)
  with inv show ?thesis by (simp add: add_book_consistent)
next
  case (AddMember m n e p a)
  with inv show ?thesis by (simp add: add_member_consistent)
next
  case (BorrowBook m i now ts ok)
  with al have "\<not> holds l m i" by simp
  with inv BorrowBook show ?thesis by (simp add: borrow_book_consistent)
next
  case (ReturnBook m i now1 now2 ts ok)
  with al have "ok" by simp
  with inv ReturnBook show ?thesis by (simp add: return_book_consistent)
qed

lemma run_consistent:
  "loans_consistent l \<Longrightarrow> guarded l cs \<Longrightarrow> loans_consistent (run l cs)"
  unfolding run_def
proof (induction cs arbitrary: l)
  case Nil
  then show ?case by simp
next
  case (Cons c cs)
  from Cons.prems have "loans_consistent (step l c)" "guarded (step l c) cs"
    by (simp_all add: step_consistent)
  from Cons.IH [OF this] show ?case by simp
qed

lemma new_library_consistent: "loans_consistent new_library"
  by (simp add: loans_consistent_def new_library_def Library_def load_from_db_def init_db_def
      open_records_def)

text \<open>
  C2. From a new store, along every sequence of \<open>add_book\<close>, \<open>add_member\<close>,
  \<open>borrow_book\<close> and \<open>return_book\<close> in which no book is lent to a member who holds
  it and the store accepts the write of every return, a pair of member and isbn has at
  most one open record in the store.
\<close>

theorem one_open_record_per_pair:
  assumes "guarded new_library cs"
  shows "length (open_records (database (run new_library cs)) m i) \<le> 1"
proof -
  from run_consistent [OF new_library_consistent assms]
  have "length (open_records (database (run new_library cs)) m i)
          \<le> (if holds (run new_library cs) m i then 1 else 0)"
    by (simp add: loans_consistent_def)
  then show ?thesis by (simp split: if_splits)
qed

theorem one_open_record_per_pair_witness:
  "guarded new_library ex_guarded
   \<and> length (borrowing_records (database (run new_library ex_guarded))) = 2
   \<and> length (open_records (database (run new_library ex_guarded)) ''M1'' ''1111111111'') \<le> 1"
proof -
  have g: "guarded new_library ex_guarded"
    by (simp add: ex_guarded_def ex_defs lib_defs holds_def)
  have n: "length (borrowing_records (database (run new_library ex_guarded))) = 2"
    by (simp add: ex_guarded_def ex_defs lib_defs)
  from one_open_record_per_pair [OF g, of "''M1''" "''1111111111''"] g n
  show ?thesis by blast
qed

text \<open>
  For every sequence, as the specification has it, the bound fails: \<open>ex_twice\<close> is
  reached from the new library by adding a member and a book of two copies and lending
  the book to the member twice, and its store has two open records for the pair.
\<close>

theorem two_open_records:
  "length (open_records (database ex_twice) ''M1'' ''1111111111'') = 2
   \<and> \<not> length (open_records (database ex_twice) ''M1'' ''1111111111'') \<le> 1"
  by (simp add: ex_defs lib_defs)

section \<open>Borrowing and returning at once\<close>


























end
